theory Spec2Isabelle
  imports Main "HOL-Library.Word" "HOL-Library.AList"
begin

section \<open>ClipBridge: the framed wire protocol and the broadcast server\<close>

text \<open>
  A shallow embedding of \<^verbatim>\<open>src/clipbridge.py\<close>. Bytes are 8-bit words, a Python
  \<^verbatim>\<open>str\<close> is the list of its code points, a \<^verbatim>\<open>bytes\<close> or \<^verbatim>\<open>bytearray\<close>
  value is a list of bytes, and a socket is identified by a number. Python's \<^verbatim>\<open>None\<close>
  is \<open>None\<close>. A function that can raise returns the exception as a value.
\<close>

subsection \<open>Constants and basic types\<close>

type_synonym byte = "8 word"
type_synonym bytes = "byte list"
type_synonym str = "nat list"
type_synonym sock = nat

text \<open>
  The exceptions that the modelled code can raise: \<^verbatim>\<open>ValueError("payload too large")\<close>
  of \<^verbatim>\<open>frame_text\<close> (the spec's PayloadTooLarge), \<^verbatim>\<open>UnicodeEncodeError\<close> of
  \<^verbatim>\<open>str.encode\<close>, and \<^verbatim>\<open>struct.error\<close> of \<^verbatim>\<open>struct.pack\<close> and
  \<^verbatim>\<open>struct.unpack\<close>.
\<close>

datatype error = ValueError | UnicodeEncodeError | StructError

definition MSG_TEXT :: byte where
  "MSG_TEXT = 0x01"

definition MAX_BYTES :: nat where
  "MAX_BYTES = 1048576"

subsection \<open>Python's UTF-8 codec\<close>

text \<open>
  \<^verbatim>\<open>str.encode("utf-8")\<close> with the strict error handler: one to four bytes per code
  point, and \<^verbatim>\<open>UnicodeEncodeError\<close> on a surrogate (U+D800 to U+DFFF). A \<^verbatim>\<open>str\<close>
  holds no code point above U+10FFFF; the model refuses such a number as well, so that
  every encodable list is a Python string. The bytes are computed as numbers first.
\<close>

definition is_surrogate :: "nat \<Rightarrow> bool" where
  "is_surrogate c = (0xD800 \<le> c \<and> c \<le> 0xDFFF)"

definition encode_cp :: "nat \<Rightarrow> nat list option" where
  "encode_cp c =
     (if c < 0x80 then Some [c]
      else if c < 0x800 then Some [0xC0 + c div 64, 0x80 + c mod 64]
      else if c < 0x10000 then
        (if is_surrogate c then None
         else Some [0xE0 + c div 4096, 0x80 + c div 64 mod 64, 0x80 + c mod 64])
      else if c < 0x110000 then
        Some [0xF0 + c div 262144, 0x80 + c div 4096 mod 64,
              0x80 + c div 64 mod 64, 0x80 + c mod 64]
      else None)"

fun encode_cps :: "str \<Rightarrow> nat list option" where
  "encode_cps [] = Some []"
| "encode_cps (c # cs) =
     (case encode_cp c of
        None \<Rightarrow> None
      | Some bs \<Rightarrow> (case encode_cps cs of None \<Rightarrow> None | Some rest \<Rightarrow> Some (bs @ rest)))"

definition utf8_encode :: "str \<Rightarrow> error + bytes" where
  "utf8_encode t =
     (case encode_cps t of
        None \<Rightarrow> Inl UnicodeEncodeError
      | Some ns \<Rightarrow> Inr (map of_nat ns))"

text \<open>
  \<^verbatim>\<open>bytes.decode("utf-8")\<close> with the strict error handler accepts exactly the
  well-formed sequences: the lead byte gives the length, every further byte is a
  continuation byte (0x80 to 0xBF), and the code point must need that many bytes
  (no overlong form), be no surrogate and be at most U+10FFFF. Anything else raises
  \<^verbatim>\<open>UnicodeDecodeError\<close>, here \<open>None\<close>.
\<close>

definition is_cont :: "nat \<Rightarrow> bool" where
  "is_cont b = (0x80 \<le> b \<and> b \<le> 0xBF)"

fun decode_nats :: "nat list \<Rightarrow> str option" where
  "decode_nats [] = Some []"
| "decode_nats (b0 # bs) =
     (if b0 < 0x80 then map_option ((#) b0) (decode_nats bs)
      else if 0xC0 \<le> b0 \<and> b0 \<le> 0xDF then
        (case bs of
           b1 # r \<Rightarrow>
             (let c = (b0 - 0xC0) * 64 + (b1 - 0x80)
              in if is_cont b1 \<and> 0x80 \<le> c
                 then map_option ((#) c) (decode_nats r) else None)
         | _ \<Rightarrow> None)
      else if 0xE0 \<le> b0 \<and> b0 \<le> 0xEF then
        (case bs of
           b1 # b2 # r \<Rightarrow>
             (let c = (b0 - 0xE0) * 4096 + (b1 - 0x80) * 64 + (b2 - 0x80)
              in if is_cont b1 \<and> is_cont b2 \<and> 0x800 \<le> c \<and> \<not> is_surrogate c
                 then map_option ((#) c) (decode_nats r) else None)
         | _ \<Rightarrow> None)
      else if 0xF0 \<le> b0 \<and> b0 \<le> 0xF7 then
        (case bs of
           b1 # b2 # b3 # r \<Rightarrow>
             (let c = (b0 - 0xF0) * 262144 + (b1 - 0x80) * 4096
                      + (b2 - 0x80) * 64 + (b3 - 0x80)
              in if is_cont b1 \<and> is_cont b2 \<and> is_cont b3 \<and> 0x10000 \<le> c \<and> c < 0x110000
                 then map_option ((#) c) (decode_nats r) else None)
         | _ \<Rightarrow> None)
      else None)"

definition utf8_decode :: "bytes \<Rightarrow> str option" where
  "utf8_decode bs = decode_nats (map unat bs)"

subsection \<open>\<^verbatim>\<open>struct.pack(">I", n)\<close> and \<^verbatim>\<open>struct.unpack(">I", b)[0]\<close>\<close>

text \<open>
  Four bytes, most significant first. \<^verbatim>\<open>pack\<close> raises \<^verbatim>\<open>struct.error\<close> when the
  number does not fit 32 bits, \<^verbatim>\<open>unpack\<close> when it is not given exactly four bytes.
  The unpacked value is a Python \<^verbatim>\<open>int\<close>.
\<close>

definition struct_pack_I :: "nat \<Rightarrow> error + bytes" where
  "struct_pack_I n =
     (if n < 2 ^ 32
      then Inr [of_nat (n div 16777216), of_nat (n div 65536), of_nat (n div 256), of_nat n]
      else Inl StructError)"

fun struct_unpack_I :: "bytes \<Rightarrow> error + int" where
  "struct_unpack_I [a, b, c, d] =
     Inr (uint a * 16777216 + uint b * 65536 + uint c * 256 + uint d)"
| "struct_unpack_I _ = Inl StructError"

subsection \<open>\<^verbatim>\<open>frame_text\<close>\<close>

definition frame_text :: "str \<Rightarrow> error + bytes" where
  "frame_text t =
     (case utf8_encode t of
        Inl e \<Rightarrow> Inl e
      | Inr data \<Rightarrow>
          if length data > MAX_BYTES then Inl ValueError
          else (case struct_pack_I (length data) of
                  Inl e \<Rightarrow> Inl e
                | Inr hdr \<Rightarrow> Inr ([MSG_TEXT] @ hdr @ data)))"

subsection \<open>The server's state\<close>

text \<open>
  \<^verbatim>\<open>ClientState\<close>: the socket, the label and the receive buffer of one connection.
\<close>

record client_state =
  sock :: sock
  label :: string
  rbuf :: bytes

definition ClientState :: "sock \<Rightarrow> string \<Rightarrow> client_state" where
  "ClientState c l = \<lparr>sock = c, label = l, rbuf = []\<rparr>"

text \<open>
  The fields of \<^verbatim>\<open>BridgeServer\<close> that the modelled methods read or write:
  \<^verbatim>\<open>clients\<close> (a dictionary, in insertion order), \<^verbatim>\<open>to_broadcast\<close> (the queue, oldest
  frame first), \<^verbatim>\<open>_last_polled\<close> and \<^verbatim>\<open>_last_sent_from_pc\<close>. The effects on the
  outside are kept as well: the sockets registered with the selector, the sockets
  closed, the payloads that \<^verbatim>\<open>sendall\<close> delivered (in order), and the calls of
  \<^verbatim>\<open>write_clipboard_text\<close> (in order). Each clipboard call is logged with its
  argument and with the value that \<^verbatim>\<open>_last_sent_from_pc\<close> held when the call was
  made; the second component is bookkeeping of the model, there to state what was
  assigned before the call.
\<close>

record server =
  clients :: "(sock \<times> client_state) list"
  to_broadcast :: "bytes list"
  last_polled :: "str option"
  last_sent_from_pc :: "str option"
  registered :: "sock set"
  closed :: "sock set"
  sent :: "(sock \<times> bytes) list"
  clipboard_writes :: "(str \<times> str option) list"

text \<open>The state that \<^verbatim>\<open>__init__\<close> builds, before any connection.\<close>

definition init_server :: server where
  "init_server =
     \<lparr>clients = [], to_broadcast = [], last_polled = None, last_sent_from_pc = None,
      registered = {}, closed = {}, sent = [], clipboard_writes = []\<rparr>"

text \<open>
  A method either returns or raises; the state it leaves behind is kept in both cases,
  since an assignment made before the \<^verbatim>\<open>raise\<close> stays.
\<close>

datatype 's outcome = Returned 's | Raised error 's

fun state_of :: "'s outcome \<Rightarrow> 's" where
  "state_of (Returned s) = s"
| "state_of (Raised e s) = s"

text \<open>
  What \<^verbatim>\<open>sock.sendall(payload)\<close> does is decided by the network: it returns, raises
  \<^verbatim>\<open>BlockingIOError\<close>, or raises another exception. A call that raises is taken to
  deliver nothing.
\<close>

datatype send_result = SendOk | WouldBlock | SendFailed

type_synonym net = "sock \<Rightarrow> bytes \<Rightarrow> send_result"

subsection \<open>\<^verbatim>\<open>write_clipboard_text\<close>\<close>

text \<open>
  The clipboard tools are outside the program. The call never raises, and the boolean
  it returns is only logged by its caller, so the model keeps the call and drops the
  result.
\<close>

definition write_clipboard_text :: "str \<Rightarrow> server \<Rightarrow> server" where
  "write_clipboard_text t s =
     s\<lparr>clipboard_writes := clipboard_writes s @ [(t, last_sent_from_pc s)]\<rparr>"

subsection \<open>\<^verbatim>\<open>_drop_client\<close> and \<^verbatim>\<open>_broadcast\<close>\<close>

definition drop_client :: "sock \<Rightarrow> server \<Rightarrow> server" where
  "drop_client c s =
     s\<lparr>clients := AList.delete c (clients s),
       registered := registered s - {c},
       closed := insert c (closed s)\<rparr>"

text \<open>The \<^verbatim>\<open>for c in targets\<close> loop of \<^verbatim>\<open>_broadcast\<close>.\<close>

fun broadcast_loop :: "net \<Rightarrow> bytes \<Rightarrow> sock option \<Rightarrow> sock list \<Rightarrow> server \<Rightarrow> server" where
  "broadcast_loop net payload exclude [] s = s"
| "broadcast_loop net payload exclude (c # cs) s =
     (if Some c = exclude then broadcast_loop net payload exclude cs s
      else (case net c payload of
              SendOk \<Rightarrow>
                broadcast_loop net payload exclude cs (s\<lparr>sent := sent s @ [(c, payload)]\<rparr>)
            | WouldBlock \<Rightarrow> broadcast_loop net payload exclude cs (drop_client c s)
            | SendFailed \<Rightarrow> broadcast_loop net payload exclude cs (drop_client c s)))"

definition broadcast :: "net \<Rightarrow> bytes \<Rightarrow> sock option \<Rightarrow> server \<Rightarrow> server" where
  "broadcast net payload exclude s =
     broadcast_loop net payload exclude (map fst (clients s)) s"

subsection \<open>\<^verbatim>\<open>_on_text_from_client\<close>\<close>

definition on_text_from_client :: "net \<Rightarrow> sock \<Rightarrow> str \<Rightarrow> server \<Rightarrow> server outcome" where
  "on_text_from_client net sender t s =
     (let s1 = s\<lparr>last_sent_from_pc := Some t\<rparr>;
          s2 = write_clipboard_text t s1
      in case frame_text t of
           Inl e \<Rightarrow> Raised e s2
         | Inr payload \<Rightarrow> Returned (broadcast net payload (Some sender) s2))"

subsection \<open>\<^verbatim>\<open>_process_frames\<close>\<close>

text \<open>
  The loop leaves through \<^verbatim>\<open>break\<close> (no complete frame is left), or through one of
  the two \<^verbatim>\<open>return\<close>s after a drop. The result names the way out and carries the
  \<^verbatim>\<open>ClientState\<close> object, whose buffer the loop has cut, and the server.
\<close>

datatype loop_exit = Break | DropBadType | DropBadLength

datatype frames_result =
  Stopped loop_exit client_state server
| Crashed error client_state server

function process_frames :: "net \<Rightarrow> client_state \<Rightarrow> server \<Rightarrow> frames_result" where
  "process_frames net st s =
     (let buf = rbuf st in
      if length buf < 5 then Stopped Break st s
      else if buf ! 0 \<noteq> MSG_TEXT then Stopped DropBadType st (drop_client (sock st) s)
      else (case struct_unpack_I (take 4 (drop 1 buf)) of
              Inl e \<Rightarrow> Crashed e st s
            | Inr len \<Rightarrow>
                if len < 0 \<or> len > int MAX_BYTES
                then Stopped DropBadLength st (drop_client (sock st) s)
                else if int (length buf) < 5 + len then Stopped Break st s
                else (let payload = take (nat len) (drop 5 buf);
                          st' = st\<lparr>rbuf := drop (5 + nat len) buf\<rparr>
                      in case utf8_decode payload of
                           None \<Rightarrow> process_frames net st' s
                         | Some t \<Rightarrow>
                             (case on_text_from_client net (sock st) t s of
                                Raised e s' \<Rightarrow> Crashed e st' s'
                              | Returned s' \<Rightarrow> process_frames net st' s'))))"
  by pat_completeness auto
termination
  by (relation "measure (\<lambda>(net, st, s). length (rbuf st))") auto

declare process_frames.simps [simp del]

text \<open>
  The last two statements of \<^verbatim>\<open>_handle_client\<close>, after a successful \<^verbatim>\<open>recv\<close>:
  the chunk is appended to the buffer and the frames are processed. Feeding byte by
  byte repeats this for each byte; an exception ends it.
\<close>

definition feed :: "net \<Rightarrow> bytes \<Rightarrow> client_state \<Rightarrow> server \<Rightarrow> frames_result" where
  "feed net chunk st s = process_frames net (st\<lparr>rbuf := rbuf st @ chunk\<rparr>) s"

fun feed_each :: "net \<Rightarrow> bytes \<Rightarrow> frames_result \<Rightarrow> frames_result" where
  "feed_each net [] r = r"
| "feed_each net (b # bs) (Stopped ex st s) = feed_each net bs (feed net [b] st s)"
| "feed_each net (b # bs) (Crashed e st s) = Crashed e st s"

subsection \<open>\<^verbatim>\<open>_accept\<close>\<close>

text \<open>
  The accepted connection \<open>conn\<close>, its label and the result of
  \<^verbatim>\<open>read_clipboard_text\<close> are given. Every exception of the \<^verbatim>\<open>try\<close> block, the one
  of \<^verbatim>\<open>frame_text\<close> included, ends in \<^verbatim>\<open>_drop_client\<close>.
\<close>

definition accept :: "net \<Rightarrow> sock \<Rightarrow> string \<Rightarrow> bool \<times> str option \<Rightarrow> server \<Rightarrow> server" where
  "accept net conn lbl rd s =
     (let s1 = s\<lparr>registered := insert conn (registered s),
                 clients := AList.update conn (ClientState conn lbl) (clients s)\<rparr>
      in case rd of
           (ok, None) \<Rightarrow> s1
         | (ok, Some txt) \<Rightarrow>
             if ok \<and> txt \<noteq> [] then
               (case frame_text txt of
                  Inl e \<Rightarrow> drop_client conn s1
                | Inr payload \<Rightarrow>
                    (case net conn payload of
                       SendOk \<Rightarrow> s1\<lparr>sent := sent s1 @ [(conn, payload)]\<rparr>
                     | WouldBlock \<Rightarrow> drop_client conn s1
                     | SendFailed \<Rightarrow> drop_client conn s1))
             else s1)"

subsection \<open>\<^verbatim>\<open>queue_from_pc\<close> and the watcher\<close>

definition queue_from_pc :: "str \<Rightarrow> server \<Rightarrow> server outcome" where
  "queue_from_pc t s =
     (let s1 = s\<lparr>last_sent_from_pc := Some t\<rparr>
      in case frame_text t of
           Inl e \<Rightarrow> Raised e s1
         | Inr payload \<Rightarrow> Returned (s1\<lparr>to_broadcast := to_broadcast s1 @ [payload]\<rparr>))"

text \<open>
  One pass through the body of the \<^verbatim>\<open>while\<close> loop of \<^verbatim>\<open>_clipboard_watch_loop\<close>,
  given what \<^verbatim>\<open>read_clipboard_text\<close> returned. An exception leaves the loop: nothing
  in the thread catches it.
\<close>

definition clipboard_watch_tick :: "bool \<times> str option \<Rightarrow> server \<Rightarrow> server outcome" where
  "clipboard_watch_tick rd s =
     (case rd of
        (ok, txt) \<Rightarrow>
          if ok then
            (case txt of
               None \<Rightarrow> Returned s
             | Some t \<Rightarrow>
                 if last_polled s = None \<or> Some t \<noteq> last_polled s then
                   (if Some t \<noteq> last_sent_from_pc s then
                      (if t \<noteq> [] then
                         (case queue_from_pc t s of
                            Raised e s' \<Rightarrow> Raised e s'
                          | Returned s' \<Rightarrow> Returned (s'\<lparr>last_polled := Some t\<rparr>))
                       else Returned (s\<lparr>last_polled := Some t\<rparr>))
                    else Returned (s\<lparr>last_polled := Some t\<rparr>))
                 else Returned s)
          else Returned s)"

section \<open>Properties of the codec\<close>

subsection \<open>UTF-8: encoding, then decoding\<close>

lemma decode2:
  "0xC0 \<le> b0 \<Longrightarrow> b0 \<le> 0xDF \<Longrightarrow> is_cont b1 \<Longrightarrow> 0x80 \<le> (b0 - 0xC0) * 64 + (b1 - 0x80) \<Longrightarrow>
   decode_nats (b0 # b1 # r) = map_option ((#) ((b0 - 0xC0) * 64 + (b1 - 0x80))) (decode_nats r)"
  by simp

lemma decode3:
  "0xE0 \<le> b0 \<Longrightarrow> b0 \<le> 0xEF \<Longrightarrow> is_cont b1 \<Longrightarrow> is_cont b2 \<Longrightarrow>
   0x800 \<le> (b0 - 0xE0) * 4096 + (b1 - 0x80) * 64 + (b2 - 0x80) \<Longrightarrow>
   \<not> is_surrogate ((b0 - 0xE0) * 4096 + (b1 - 0x80) * 64 + (b2 - 0x80)) \<Longrightarrow>
   decode_nats (b0 # b1 # b2 # r) =
     map_option ((#) ((b0 - 0xE0) * 4096 + (b1 - 0x80) * 64 + (b2 - 0x80))) (decode_nats r)"
  by simp

lemma decode4:
  "0xF0 \<le> b0 \<Longrightarrow> b0 \<le> 0xF7 \<Longrightarrow> is_cont b1 \<Longrightarrow> is_cont b2 \<Longrightarrow> is_cont b3 \<Longrightarrow>
   0x10000 \<le> (b0 - 0xF0) * 262144 + (b1 - 0x80) * 4096 + (b2 - 0x80) * 64 + (b3 - 0x80) \<Longrightarrow>
   (b0 - 0xF0) * 262144 + (b1 - 0x80) * 4096 + (b2 - 0x80) * 64 + (b3 - 0x80) < 0x110000 \<Longrightarrow>
   decode_nats (b0 # b1 # b2 # b3 # r) =
     map_option ((#) ((b0 - 0xF0) * 262144 + (b1 - 0x80) * 4096 + (b2 - 0x80) * 64 + (b3 - 0x80)))
       (decode_nats r)"
  by simp

lemma div_4096: "(c::nat) div 4096 = c div 64 div 64"
  by (simp add: div_mult2_eq)

lemma div_262144: "(c::nat) div 262144 = c div 64 div 64 div 64"
  by (simp add: div_mult2_eq)

lemma enc_dec_2:
  assumes "0x80 \<le> c" "c < 0x800"
  shows "decode_nats ([0xC0 + c div 64, 0x80 + c mod 64] @ r)
         = map_option ((#) c) (decode_nats r)"
proof -
  define r1 where "r1 = c mod 64"
  define q1 where "q1 = c div 64"
  have c: "c = q1 * 64 + r1" and b1: "r1 < 64" by (simp_all add: q1_def r1_def)
  have q1: "q1 < 32" using c assms(2) by simp
  have "decode_nats ((0xC0 + q1) # (0x80 + r1) # r) = map_option ((#) c) (decode_nats r)"
    using decode2 [of "0xC0 + q1" "0x80 + r1" r] q1 b1 assms(1)
    by (simp add: is_cont_def c del: decode_nats.simps)
  then show ?thesis
    by (simp only: q1_def r1_def append_Cons append_Nil)
qed

lemma enc_dec_3:
  assumes "0x800 \<le> c" "c < 0x10000" "\<not> is_surrogate c"
  shows "decode_nats ([0xE0 + c div 4096, 0x80 + c div 64 mod 64, 0x80 + c mod 64] @ r)
         = map_option ((#) c) (decode_nats r)"
proof -
  define r1 where "r1 = c mod 64"
  define q1 where "q1 = c div 64"
  define r2 where "r2 = q1 mod 64"
  define q2 where "q2 = q1 div 64"
  have c1: "c = q1 * 64 + r1" and b1: "r1 < 64" by (simp_all add: q1_def r1_def)
  have c2: "q1 = q2 * 64 + r2" and b2: "r2 < 64" by (simp_all add: q2_def r2_def)
  have c: "c = q2 * 4096 + r2 * 64 + r1" using c1 c2 by simp
  have q2: "q2 < 16" using c assms(2) by simp
  have "decode_nats ((0xE0 + q2) # (0x80 + r2) # (0x80 + r1) # r)
        = map_option ((#) c) (decode_nats r)"
    using decode3 [of "0xE0 + q2" "0x80 + r2" "0x80 + r1" r] q2 b1 b2 assms(1,3)
    by (simp add: is_cont_def c del: decode_nats.simps)
  then show ?thesis
    by (simp only: q2_def r2_def q1_def r1_def div_4096 append_Cons append_Nil)
qed

lemma enc_dec_4:
  assumes "0x10000 \<le> c" "c < 0x110000"
  shows "decode_nats ([0xF0 + c div 262144, 0x80 + c div 4096 mod 64,
                       0x80 + c div 64 mod 64, 0x80 + c mod 64] @ r)
         = map_option ((#) c) (decode_nats r)"
proof -
  define r1 where "r1 = c mod 64"
  define q1 where "q1 = c div 64"
  define r2 where "r2 = q1 mod 64"
  define q2 where "q2 = q1 div 64"
  define r3 where "r3 = q2 mod 64"
  define q3 where "q3 = q2 div 64"
  have c1: "c = q1 * 64 + r1" and b1: "r1 < 64" by (simp_all add: q1_def r1_def)
  have c2: "q1 = q2 * 64 + r2" and b2: "r2 < 64" by (simp_all add: q2_def r2_def)
  have c3: "q2 = q3 * 64 + r3" and b3: "r3 < 64" by (simp_all add: q3_def r3_def)
  have c: "c = q3 * 262144 + r3 * 4096 + r2 * 64 + r1" using c1 c2 c3 by simp
  have q3: "q3 < 8" using c assms(2) by simp
  have "decode_nats ((0xF0 + q3) # (0x80 + r3) # (0x80 + r2) # (0x80 + r1) # r)
        = map_option ((#) c) (decode_nats r)"
    using decode4 [of "0xF0 + q3" "0x80 + r3" "0x80 + r2" "0x80 + r1" r] q3 b1 b2 b3 assms
    by (simp add: is_cont_def c del: decode_nats.simps)
  then show ?thesis
    by (simp only: q3_def r3_def q2_def r2_def q1_def r1_def div_4096 div_262144
        append_Cons append_Nil)
qed

lemma decode_encode_cp:
  "encode_cp c = Some bs \<Longrightarrow> decode_nats (bs @ r) = map_option ((#) c) (decode_nats r)"
  unfolding encode_cp_def
  using enc_dec_2 [of c r] enc_dec_3 [of c r] enc_dec_4 [of c r]
  by (auto split: if_splits simp del: decode_nats.simps) simp

lemma decode_encode_cps:
  "encode_cps t = Some ns \<Longrightarrow> decode_nats (ns @ r) = map_option ((@) t) (decode_nats r)"
proof (induction t arbitrary: ns)
  case Nil
  then show ?case by (simp add: option.map_ident del: decode_nats.simps)
next
  case (Cons c cs)
  from Cons.prems obtain bs rest where
    bs: "encode_cp c = Some bs" and rest: "encode_cps cs = Some rest" and ns: "ns = bs @ rest"
    by (auto split: option.splits)
  show ?case
    using decode_encode_cp [OF bs, of "rest @ r"] Cons.IH [OF rest]
    by (simp add: ns option.map_comp comp_def del: decode_nats.simps)
qed

lemma encode_cp_bytes: "encode_cp c = Some bs \<Longrightarrow> b \<in> set bs \<Longrightarrow> b < 256"
proof -
  assume a: "encode_cp c = Some bs" "b \<in> set bs"
  have m: "c mod 64 < 64" "c div 64 mod 64 < 64" "c div 4096 mod 64 < 64" by simp_all
  have d2: "c < 0x800 \<Longrightarrow> c div 64 < 32" by simp
  have d3: "c < 0x10000 \<Longrightarrow> c div 4096 < 16" by simp
  have d4: "c < 0x110000 \<Longrightarrow> c div 262144 < 8" by simp
  show ?thesis
    using a m d2 d3 d4 unfolding encode_cp_def
    by (auto split: if_splits)
qed

lemma encode_cps_bytes: "encode_cps t = Some ns \<Longrightarrow> b \<in> set ns \<Longrightarrow> b < 256"
proof (induction t arbitrary: ns)
  case Nil
  then show ?case by simp
next
  case (Cons c cs)
  then show ?case
    by (auto split: option.splits dest: encode_cp_bytes)
qed

lemma unat_of_nat_bytes:
  "(\<And>b. b \<in> set ns \<Longrightarrow> b < 256) \<Longrightarrow> map unat (map of_nat ns :: bytes) = ns"
  by (induction ns) (simp_all add: unat_of_nat)

lemma utf8_decode_encode: "utf8_encode t = Inr data \<Longrightarrow> utf8_decode data = Some t"
proof -
  assume "utf8_encode t = Inr data"
  then obtain ns where ns: "encode_cps t = Some ns" and data: "data = map of_nat ns"
    by (auto simp: utf8_encode_def split: option.splits)
  have "map unat data = ns"
    unfolding data using encode_cps_bytes [OF ns] by (rule unat_of_nat_bytes)
  then show ?thesis
    using decode_encode_cps [OF ns, of "[]"] by (simp add: utf8_decode_def)
qed

subsection \<open>UTF-8: decoding, then encoding\<close>

lemma div_mod_64: "r < 64 \<Longrightarrow> (q * 64 + r) div 64 = (q::nat) \<and> (q * 64 + r) mod 64 = r"
  by simp

lemma dec_enc_2:
  assumes "0xC0 \<le> b0" "b0 \<le> 0xDF" "is_cont b1" "0x80 \<le> (b0 - 0xC0) * 64 + (b1 - 0x80)"
  shows "encode_cp ((b0 - 0xC0) * 64 + (b1 - 0x80)) = Some [b0, b1]"
proof -
  define x where "x = b0 - 0xC0"
  define y where "y = b1 - 0x80"
  have b0: "b0 = 0xC0 + x" and b1: "b1 = 0x80 + y" and x: "x < 32" and y: "y < 64"
    using assms(1-3) by (auto simp: x_def y_def is_cont_def)
  have c: "128 \<le> x * 64 + y" using assms(4) by (simp add: x_def y_def)
  have "x * 64 + y < 2048" using x y by simp
  then show ?thesis
    unfolding x_def [symmetric] y_def [symmetric]
    using c div_mod_64 [OF y, of x] by (simp add: encode_cp_def b0 b1)
qed

lemma dec_enc_3:
  assumes "0xE0 \<le> b0" "b0 \<le> 0xEF" "is_cont b1" "is_cont b2"
    "0x800 \<le> (b0 - 0xE0) * 4096 + (b1 - 0x80) * 64 + (b2 - 0x80)"
    "\<not> is_surrogate ((b0 - 0xE0) * 4096 + (b1 - 0x80) * 64 + (b2 - 0x80))"
  shows "encode_cp ((b0 - 0xE0) * 4096 + (b1 - 0x80) * 64 + (b2 - 0x80)) = Some [b0, b1, b2]"
proof -
  define x where "x = b0 - 0xE0"
  define y where "y = b1 - 0x80"
  define z where "z = b2 - 0x80"
  define c where "c = x * 4096 + y * 64 + z"
  have b0: "b0 = 0xE0 + x" and b1: "b1 = 0x80 + y" and b2: "b2 = 0x80 + z"
    and x: "x < 16" and y: "y < 64" and z: "z < 64"
    using assms(1-4) by (auto simp: x_def y_def z_def is_cont_def)
  have lo: "2048 \<le> c" and ns: "\<not> is_surrogate c"
    using assms(5,6) by (simp_all add: c_def x_def y_def z_def)
  have hi: "c < 65536" using x y z by (simp add: c_def)
  have c64: "c = (x * 64 + y) * 64 + z" by (simp add: c_def)
  have d1: "c div 64 = x * 64 + y" and m1: "c mod 64 = z"
    using div_mod_64 [OF z, of "x * 64 + y"] by (simp_all add: c64)
  have d2: "c div 4096 = x" and m2: "c div 64 mod 64 = y"
    using div_mod_64 [OF y, of x] by (simp_all add: div_4096 d1)
  have "encode_cp c = Some [b0, b1, b2]"
    using lo hi ns by (simp add: encode_cp_def d2 m2 m1 b0 b1 b2)
  then show ?thesis
    by (simp only: c_def x_def y_def z_def)
qed

lemma dec_enc_4:
  assumes "0xF0 \<le> b0" "b0 \<le> 0xF7" "is_cont b1" "is_cont b2" "is_cont b3"
    "0x10000 \<le> (b0 - 0xF0) * 262144 + (b1 - 0x80) * 4096 + (b2 - 0x80) * 64 + (b3 - 0x80)"
    "(b0 - 0xF0) * 262144 + (b1 - 0x80) * 4096 + (b2 - 0x80) * 64 + (b3 - 0x80) < 0x110000"
  shows "encode_cp ((b0 - 0xF0) * 262144 + (b1 - 0x80) * 4096 + (b2 - 0x80) * 64 + (b3 - 0x80))
         = Some [b0, b1, b2, b3]"
proof -
  define w where "w = b0 - 0xF0"
  define x where "x = b1 - 0x80"
  define y where "y = b2 - 0x80"
  define z where "z = b3 - 0x80"
  define c where "c = w * 262144 + x * 4096 + y * 64 + z"
  have b0: "b0 = 0xF0 + w" and b1: "b1 = 0x80 + x" and b2: "b2 = 0x80 + y" and b3: "b3 = 0x80 + z"
    and x: "x < 64" and y: "y < 64" and z: "z < 64"
    using assms(1-5) by (auto simp: w_def x_def y_def z_def is_cont_def)
  have lo: "65536 \<le> c" and hi: "c < 1114112"
    using assms(6,7) by (simp_all add: c_def w_def x_def y_def z_def)
  have c64: "c = ((w * 64 + x) * 64 + y) * 64 + z" by (simp add: c_def)
  have d1: "c div 64 = (w * 64 + x) * 64 + y" and m1: "c mod 64 = z"
    using div_mod_64 [OF z, of "(w * 64 + x) * 64 + y"] by (simp_all add: c64)
  have d2: "c div 4096 = w * 64 + x" and m2: "c div 64 mod 64 = y"
    using div_mod_64 [OF y, of "w * 64 + x"] by (simp_all add: div_4096 d1)
  have d3: "c div 262144 = w" and m3: "c div 4096 mod 64 = x"
    using div_mod_64 [OF x, of w] d2 by (simp_all add: div_262144 div_4096 d1)
  have "encode_cp c = Some [b0, b1, b2, b3]"
    using lo hi by (simp add: encode_cp_def d3 m3 m2 m1 b0 b1 b2 b3)
  then show ?thesis
    by (simp only: c_def w_def x_def y_def z_def)
qed

lemma encode_decode_nats: "decode_nats ns = Some t \<Longrightarrow> encode_cps t = Some ns"
proof (induction ns arbitrary: t rule: decode_nats.induct)
  case 1
  then show ?case by simp
next
  case (2 b0 bs)
  consider (a) "b0 < 0x80" | (b) "0xC0 \<le> b0" "b0 \<le> 0xDF" | (c) "0xE0 \<le> b0" "b0 \<le> 0xEF"
    | (d) "0xF0 \<le> b0" "b0 \<le> 0xF7" | (e) "0x80 \<le> b0" "b0 < 0xC0" | (f) "0xF7 < b0"
    by linarith
  then show ?case
  proof cases
    case a
    with "2.prems" obtain t' where t': "decode_nats bs = Some t'" and t: "t = b0 # t'"
      by auto
    from "2.IH"(1) [OF a t'] show ?thesis
      using a by (simp add: t encode_cp_def)
  next
    case b
    with "2.prems" obtain b1 r t' where bs: "bs = b1 # r"
      and ok: "is_cont b1" "0x80 \<le> (b0 - 0xC0) * 64 + (b1 - 0x80)"
      and t': "decode_nats r = Some t'" and t: "t = ((b0 - 0xC0) * 64 + (b1 - 0x80)) # t'"
      by (auto simp: Let_def split: list.splits if_splits)
    have "encode_cps t' = Some r"
      using "2.IH"(2) [of b1 r "(b0 - 0xC0) * 64 + (b1 - 0x80)" t'] b bs ok t' by simp
    then show ?thesis
      using dec_enc_2 [OF b ok] by (simp add: t bs)
  next
    case c
    with "2.prems" obtain b1 b2 r t' where bs: "bs = b1 # b2 # r"
      and ok: "is_cont b1" "is_cont b2"
        "0x800 \<le> (b0 - 0xE0) * 4096 + (b1 - 0x80) * 64 + (b2 - 0x80)"
        "\<not> is_surrogate ((b0 - 0xE0) * 4096 + (b1 - 0x80) * 64 + (b2 - 0x80))"
      and t': "decode_nats r = Some t'"
      and t: "t = ((b0 - 0xE0) * 4096 + (b1 - 0x80) * 64 + (b2 - 0x80)) # t'"
      by (auto simp: Let_def split: list.splits if_splits)
    have "encode_cps t' = Some r"
      using "2.IH"(3) [of b1 "b2 # r" b2 r "(b0 - 0xE0) * 4096 + (b1 - 0x80) * 64 + (b2 - 0x80)" t']
        c bs ok t' by simp
    then show ?thesis
      using dec_enc_3 [OF c ok] by (simp add: t bs)
  next
    case d
    with "2.prems" obtain b1 b2 b3 r t' where bs: "bs = b1 # b2 # b3 # r"
      and ok: "is_cont b1" "is_cont b2" "is_cont b3"
        "0x10000 \<le> (b0 - 0xF0) * 262144 + (b1 - 0x80) * 4096 + (b2 - 0x80) * 64 + (b3 - 0x80)"
        "(b0 - 0xF0) * 262144 + (b1 - 0x80) * 4096 + (b2 - 0x80) * 64 + (b3 - 0x80) < 0x110000"
      and t': "decode_nats r = Some t'"
      and t: "t = ((b0 - 0xF0) * 262144 + (b1 - 0x80) * 4096 + (b2 - 0x80) * 64 + (b3 - 0x80)) # t'"
      by (auto simp: Let_def split: list.splits if_splits)
    have "encode_cps t' = Some r"
      using "2.IH"(4) [of b1 "b2 # b3 # r" b2 "b3 # r" b3 r
          "(b0 - 0xF0) * 262144 + (b1 - 0x80) * 4096 + (b2 - 0x80) * 64 + (b3 - 0x80)" t']
        d bs ok t' by simp
    then show ?thesis
      using dec_enc_4 [OF d ok] by (simp add: t bs)
  next
    case e
    with "2.prems" show ?thesis by simp
  next
    case f
    with "2.prems" show ?thesis by simp
  qed
qed

lemma utf8_encode_decode: "utf8_decode data = Some t \<Longrightarrow> utf8_encode t = Inr data"
  using encode_decode_nats [of "map unat data" t]
  by (simp add: utf8_decode_def utf8_encode_def comp_def)

subsection \<open>The length header\<close>

lemma uint_byte_of_nat: "uint (of_nat k :: byte) = int (k mod 256)"
  by (simp add: uint_nat unat_of_nat)

lemma be32_digits:
  fixes n :: nat
  assumes "n < 2 ^ 32"
  shows "(n div 16777216 mod 256) * 16777216 + (n div 65536 mod 256) * 65536
         + (n div 256 mod 256) * 256 + n mod 256 = n"
proof -
  define q1 where "q1 = n div 256"
  define q2 where "q2 = q1 div 256"
  define q3 where "q3 = q2 div 256"
  have n: "n = q1 * 256 + n mod 256" by (simp add: q1_def)
  have q1: "q1 = q2 * 256 + q1 mod 256" by (simp add: q2_def)
  have q2: "q2 = q3 * 256 + q2 mod 256" by (simp add: q3_def)
  have d2: "n div 65536 = q2" by (simp add: q2_def q1_def div_mult2_eq)
  have d3: "n div 16777216 = q3" by (simp add: q3_def q2_def q1_def div_mult2_eq)
  have "q3 < 256" using assms by (simp add: d3 [symmetric])
  then have m3: "q3 mod 256 = q3" by simp
  show ?thesis
    unfolding d2 d3 q1_def [symmetric] m3 using n q1 q2 by linarith
qed

lemma struct_unpack_pack:
  "struct_pack_I n = Inr hdr \<Longrightarrow> struct_unpack_I hdr = Inr (int n) \<and> length hdr = 4"
proof -
  assume a: "struct_pack_I n = Inr hdr"
  then have n: "n < 2 ^ 32"
    and hdr: "hdr = [of_nat (n div 16777216), of_nat (n div 65536), of_nat (n div 256), of_nat n]"
    by (auto simp: struct_pack_I_def split: if_splits)
  have "int ((n div 16777216 mod 256) * 16777216 + (n div 65536 mod 256) * 65536
         + (n div 256 mod 256) * 256 + n mod 256) = int n"
    by (simp only: be32_digits [OF n])
  moreover have "n div 16777216 mod 256 = n div 16777216"
    using n by simp
  ultimately show ?thesis
    by (simp add: hdr uint_byte_of_nat)
qed

lemma struct_unpack_I_range:
  "struct_unpack_I [a, b, c, d] = Inr n \<Longrightarrow> 0 \<le> n \<and> n < 2 ^ 32"
proof -
  assume h: "struct_unpack_I [a, b, c, d] = Inr n"
  have "uint a < 256" "uint b < 256" "uint c < 256" "uint d < 256"
    using uint_bounded [of a] uint_bounded [of b] uint_bounded [of c] uint_bounded [of d] by simp_all
  moreover have "0 \<le> uint a" "0 \<le> uint b" "0 \<le> uint c" "0 \<le> uint d" by simp_all
  ultimately show ?thesis using h by auto
qed

lemma struct_unpack_I_four:
  "length bs = 4 \<Longrightarrow> \<exists>n. struct_unpack_I bs = Inr n \<and> 0 \<le> n \<and> n < 2 ^ 32"
proof -
  assume "length bs = 4"
  then obtain a b c d where bs: "bs = [a, b, c, d]"
    by (auto simp: length_Suc_conv numeral_eq_Suc)
  show ?thesis
    using struct_unpack_I_range [of a b c d] by (simp add: bs)
qed

lemma struct_pack_I_ok: "n \<le> MAX_BYTES \<Longrightarrow> \<exists>hdr. struct_pack_I n = Inr hdr"
  by (simp add: struct_pack_I_def MAX_BYTES_def)

subsection \<open>\<^verbatim>\<open>frame_text\<close> on an encodable string\<close>

lemma frame_text_Inr:
  assumes "utf8_encode t = Inr data" "length data \<le> MAX_BYTES"
  shows "frame_text t =
     Inr (MSG_TEXT # [of_nat (length data div 16777216), of_nat (length data div 65536),
                      of_nat (length data div 256), of_nat (length data)] @ data)"
  using assms by (simp add: frame_text_def struct_pack_I_def MAX_BYTES_def)

lemma frame_text_raises:
  assumes "utf8_encode t = Inr data" "MAX_BYTES < length data"
  shows "frame_text t = Inl ValueError"
  using assms by (simp add: frame_text_def)

lemma frame_text_of_decoded:
  assumes "utf8_decode p = Some t" "length p \<le> MAX_BYTES"
  shows "\<exists>f. frame_text t = Inr f"
  using frame_text_Inr [OF utf8_encode_decode [OF assms(1)] assms(2)] by blast

subsection \<open>Plain ASCII strings of any length\<close>

lemma encode_cps_replicate: "c < 0x80 \<Longrightarrow> encode_cps (replicate n c) = Some (replicate n c)"
  by (induction n) (simp_all add: encode_cp_def)

lemma utf8_encode_replicate:
  "c < 0x80 \<Longrightarrow> utf8_encode (replicate n c) = Inr (replicate n (of_nat c))"
  by (simp add: utf8_encode_def encode_cps_replicate)

lemma frame_text_oversized: "frame_text (replicate 1048577 97) = Inl ValueError"
  by (rule frame_text_raises [where data = "replicate 1048577 97"])
     (simp_all add: utf8_encode_replicate MAX_BYTES_def)

section \<open>Properties of the server\<close>

subsection \<open>What \<^verbatim>\<open>_broadcast\<close> leaves alone\<close>

lemma broadcast_loop_fields:
  "to_broadcast (broadcast_loop net payload exclude cs s) = to_broadcast s \<and>
   last_polled (broadcast_loop net payload exclude cs s) = last_polled s \<and>
   last_sent_from_pc (broadcast_loop net payload exclude cs s) = last_sent_from_pc s \<and>
   clipboard_writes (broadcast_loop net payload exclude cs s) = clipboard_writes s"
  by (induction cs arbitrary: s) (simp_all add: drop_client_def split: send_result.splits)

lemma broadcast_fields:
  "to_broadcast (broadcast net payload exclude s) = to_broadcast s"
  "last_polled (broadcast net payload exclude s) = last_polled s"
  "last_sent_from_pc (broadcast net payload exclude s) = last_sent_from_pc s"
  "clipboard_writes (broadcast net payload exclude s) = clipboard_writes s"
  by (simp_all add: broadcast_def broadcast_loop_fields)

lemma on_text_from_client_fields:
  "last_sent_from_pc (state_of (on_text_from_client net sender t s)) = Some t"
  "clipboard_writes (state_of (on_text_from_client net sender t s))
     = clipboard_writes s @ [(t, Some t)]"
  "to_broadcast (state_of (on_text_from_client net sender t s)) = to_broadcast s"
  "last_polled (state_of (on_text_from_client net sender t s)) = last_polled s"
  by (simp_all add: on_text_from_client_def write_clipboard_text_def broadcast_fields Let_def
      split: sum.splits)

lemma on_text_from_client_returns:
  assumes "utf8_decode p = Some t" "length p \<le> MAX_BYTES"
  shows "\<exists>s'. on_text_from_client net sender t s = Returned s'"
  using frame_text_of_decoded [OF assms] by (auto simp: on_text_from_client_def Let_def)

subsection \<open>What \<^verbatim>\<open>_broadcast\<close> does to each target\<close>

lemma broadcast_loop_sent:
  "sent (broadcast_loop net p ex cs s) =
     sent s @ map (\<lambda>c. (c, p)) (filter (\<lambda>c. Some c \<noteq> ex \<and> net c p = SendOk) cs)"
  by (induction cs arbitrary: s) (simp_all add: drop_client_def split: send_result.splits)

lemma broadcast_loop_clients:
  "clients (broadcast_loop net p ex cs s) =
     filter (\<lambda>kv. fst kv \<notin> set (filter (\<lambda>c. Some c \<noteq> ex \<and> net c p \<noteq> SendOk) cs)) (clients s)"
proof (induction cs arbitrary: s)
  case Nil
  then show ?case by simp
next
  case (Cons c cs)
  have del: "clients (drop_client c s) = filter (\<lambda>kv. fst kv \<noteq> c) (clients s)"
    by (simp add: drop_client_def AList.delete_eq case_prod_unfold eq_commute)
  show ?case
    by (cases "net c p") (auto simp: Cons.IH del intro: filter_cong)
qed

lemma broadcast_loop_closed:
  "closed (broadcast_loop net p ex cs s) =
     closed s \<union> set (filter (\<lambda>c. Some c \<noteq> ex \<and> net c p \<noteq> SendOk) cs)"
  by (induction cs arbitrary: s) (auto simp: drop_client_def split: send_result.splits)

lemma broadcast_loop_registered:
  "registered (broadcast_loop net p ex cs s) =
     registered s - set (filter (\<lambda>c. Some c \<noteq> ex \<and> net c p \<noteq> SendOk) cs)"
  by (induction cs arbitrary: s) (auto simp: drop_client_def split: send_result.splits)

lemma count_list_delivered:
  "distinct cs \<Longrightarrow>
   count_list (map (\<lambda>c. (c, p)) (filter P cs)) (c, p) = (if c \<in> set cs \<and> P c then 1 else 0)"
  by (induction cs) auto

subsection \<open>The watcher's tick\<close>

lemma watch_tick_suppressed:
  "last_sent_from_pc s = Some t \<Longrightarrow>
   clipboard_watch_tick (True, Some t) s =
     Returned (if last_polled s = Some t then s else s\<lparr>last_polled := Some t\<rparr>)"
  by (auto simp: clipboard_watch_tick_def)

text \<open>
  When the tick returns, \<^verbatim>\<open>_last_polled\<close> is the string read, and it returns
  whenever the string fits a frame; a failed read changes nothing.
\<close>

lemma watch_tick_last_polled:
  "clipboard_watch_tick (True, Some t) s = Returned s' \<Longrightarrow> last_polled s' = Some t"
  by (auto simp: clipboard_watch_tick_def queue_from_pc_def Let_def split: if_splits sum.splits)

lemma watch_tick_returns:
  assumes "utf8_encode t = Inr data" "length data \<le> MAX_BYTES"
  shows "\<exists>s'. clipboard_watch_tick (True, Some t) s = Returned s'"
  using frame_text_Inr [OF assms]
  by (auto simp: clipboard_watch_tick_def queue_from_pc_def Let_def)

lemma watch_tick_read_failed: "clipboard_watch_tick (False, txt) s = Returned s"
  by (simp add: clipboard_watch_tick_def)

subsection \<open>One pass through the loop of \<^verbatim>\<open>_process_frames\<close>\<close>

lemma process_frames_short:
  "length (rbuf st) < 5 \<Longrightarrow> process_frames net st s = Stopped Break st s"
  by (simp add: process_frames.simps)

lemma process_frames_bad_type:
  "5 \<le> length (rbuf st) \<Longrightarrow> rbuf st ! 0 \<noteq> MSG_TEXT \<Longrightarrow>
   process_frames net st s = Stopped DropBadType st (drop_client (sock st) s)"
  by (simp add: process_frames.simps)

lemma process_frames_bad_length:
  "5 \<le> length (rbuf st) \<Longrightarrow> rbuf st ! 0 = MSG_TEXT \<Longrightarrow>
   struct_unpack_I (take 4 (drop 1 (rbuf st))) = Inr n \<Longrightarrow> int MAX_BYTES < n \<Longrightarrow>
   process_frames net st s = Stopped DropBadLength st (drop_client (sock st) s)"
  by (simp add: process_frames.simps)

lemma process_frames_incomplete:
  "5 \<le> length (rbuf st) \<Longrightarrow> rbuf st ! 0 = MSG_TEXT \<Longrightarrow>
   struct_unpack_I (take 4 (drop 1 (rbuf st))) = Inr n \<Longrightarrow> 0 \<le> n \<Longrightarrow> n \<le> int MAX_BYTES \<Longrightarrow>
   int (length (rbuf st)) < 5 + n \<Longrightarrow>
   process_frames net st s = Stopped Break st s"
  by (simp add: process_frames.simps)

lemma process_frames_complete:
  "5 \<le> length (rbuf st) \<Longrightarrow> rbuf st ! 0 = MSG_TEXT \<Longrightarrow>
   struct_unpack_I (take 4 (drop 1 (rbuf st))) = Inr n \<Longrightarrow> 0 \<le> n \<Longrightarrow> n \<le> int MAX_BYTES \<Longrightarrow>
   5 + n \<le> int (length (rbuf st)) \<Longrightarrow>
   process_frames net st s =
     (case utf8_decode (take (nat n) (drop 5 (rbuf st))) of
        None \<Rightarrow> process_frames net (st\<lparr>rbuf := drop (5 + nat n) (rbuf st)\<rparr>) s
      | Some t \<Rightarrow>
          (case on_text_from_client net (sock st) t s of
             Raised e s' \<Rightarrow> Crashed e (st\<lparr>rbuf := drop (5 + nat n) (rbuf st)\<rparr>) s'
           | Returned s' \<Rightarrow> process_frames net (st\<lparr>rbuf := drop (5 + nat n) (rbuf st)\<rparr>) s'))"
  by (subst process_frames.simps) (simp add: Let_def)

lemma header_parsed:
  "5 \<le> length buf \<Longrightarrow> \<exists>n. struct_unpack_I (take 4 (drop 1 buf)) = Inr n \<and> 0 \<le> n \<and> n < 2 ^ 32"
  by (rule struct_unpack_I_four) simp

text \<open>The loop never raises: a decoded payload can always be framed again.\<close>

lemma process_frames_never_crashes: "process_frames net st s \<noteq> Crashed e st' s'"
proof (induction net st s rule: process_frames.induct)
  case (1 net st s)
  show ?case
  proof (cases "length (rbuf st) < 5")
    case True
    then show ?thesis by (simp add: process_frames_short)
  next
    case long: False
    show ?thesis
    proof (cases "rbuf st ! 0 = MSG_TEXT")
      case False
      then show ?thesis using long by (simp add: process_frames_bad_type)
    next
      case ty: True
      from long obtain n where n: "struct_unpack_I (take 4 (drop 1 (rbuf st))) = Inr n"
        and n0: "0 \<le> n"
        using header_parsed [of "rbuf st"] by auto
      show ?thesis
      proof (cases "int MAX_BYTES < n")
        case True
        then show ?thesis using long ty n by (simp add: process_frames_bad_length)
      next
        case small: False
        show ?thesis
        proof (cases "int (length (rbuf st)) < 5 + n")
          case True
          then show ?thesis using long ty n n0 small by (simp add: process_frames_incomplete)
        next
          case full: False
          let ?p = "take (nat n) (drop 5 (rbuf st))"
          let ?st = "st\<lparr>rbuf := drop (5 + nat n) (rbuf st)\<rparr>"
          have eq: "process_frames net st s =
            (case utf8_decode ?p of
               None \<Rightarrow> process_frames net ?st s
             | Some t \<Rightarrow>
                (case on_text_from_client net (sock st) t s of
                   Raised e s' \<Rightarrow> Crashed e ?st s'
                 | Returned s' \<Rightarrow> process_frames net ?st s'))"
            using long ty n n0 small full by (intro process_frames_complete) simp_all
          have cond: "\<not> (n < 0 \<or> int MAX_BYTES < n)" using n0 small by simp
          show ?thesis
          proof (cases "utf8_decode ?p")
            case None
            then show ?thesis
              using "1.IH"(1) [OF refl long _ n cond full refl refl None] ty
              by (simp add: eq)
          next
            case (Some t)
            have "length ?p \<le> MAX_BYTES" using small n0 by simp
            from on_text_from_client_returns [OF Some this]
            obtain s1 where s1: "on_text_from_client net (sock st) t s = Returned s1" by blast
            show ?thesis
              using "1.IH"(2) [OF refl long _ n cond full refl refl Some s1] ty
              by (simp add: eq Some s1)
          qed
        qed
      qed
    qed
  qed
qed

text \<open>
  The five ways through one pass of the loop, as an induction rule: the buffer is too
  short for a header, the type byte is wrong, the length is too large, the frame is not
  complete yet, or a complete frame is cut off the buffer and the loop goes on (after
  the handler has run, when the payload decodes).
\<close>

lemma process_frames_induct [case_names short bad_type bad_length incomplete skip deliver]:
  assumes short: "\<And>st s. length (rbuf st) < 5 \<Longrightarrow> P st s"
    and bad_type: "\<And>st s. 5 \<le> length (rbuf st) \<Longrightarrow> rbuf st ! 0 \<noteq> MSG_TEXT \<Longrightarrow> P st s"
    and bad_length: "\<And>st s n. 5 \<le> length (rbuf st) \<Longrightarrow> rbuf st ! 0 = MSG_TEXT \<Longrightarrow>
        struct_unpack_I (take 4 (drop 1 (rbuf st))) = Inr n \<Longrightarrow> int MAX_BYTES < n \<Longrightarrow> P st s"
    and incomplete: "\<And>st s n. 5 \<le> length (rbuf st) \<Longrightarrow> rbuf st ! 0 = MSG_TEXT \<Longrightarrow>
        struct_unpack_I (take 4 (drop 1 (rbuf st))) = Inr n \<Longrightarrow> 0 \<le> n \<Longrightarrow> n \<le> int MAX_BYTES \<Longrightarrow>
        int (length (rbuf st)) < 5 + n \<Longrightarrow> P st s"
    and skip: "\<And>st s n. 5 \<le> length (rbuf st) \<Longrightarrow> rbuf st ! 0 = MSG_TEXT \<Longrightarrow>
        struct_unpack_I (take 4 (drop 1 (rbuf st))) = Inr n \<Longrightarrow> 0 \<le> n \<Longrightarrow> n \<le> int MAX_BYTES \<Longrightarrow>
        5 + n \<le> int (length (rbuf st)) \<Longrightarrow>
        utf8_decode (take (nat n) (drop 5 (rbuf st))) = None \<Longrightarrow>
        P (st\<lparr>rbuf := drop (5 + nat n) (rbuf st)\<rparr>) s \<Longrightarrow> P st s"
    and deliver: "\<And>st s n t s1. 5 \<le> length (rbuf st) \<Longrightarrow> rbuf st ! 0 = MSG_TEXT \<Longrightarrow>
        struct_unpack_I (take 4 (drop 1 (rbuf st))) = Inr n \<Longrightarrow> 0 \<le> n \<Longrightarrow> n \<le> int MAX_BYTES \<Longrightarrow>
        5 + n \<le> int (length (rbuf st)) \<Longrightarrow>
        utf8_decode (take (nat n) (drop 5 (rbuf st))) = Some t \<Longrightarrow>
        on_text_from_client net (sock st) t s = Returned s1 \<Longrightarrow>
        P (st\<lparr>rbuf := drop (5 + nat n) (rbuf st)\<rparr>) s1 \<Longrightarrow> P st s"
  shows "P st s"
proof (induction "length (rbuf st)" arbitrary: st s rule: less_induct)
  case (less st s)
  show ?case
  proof (cases "length (rbuf st) < 5")
    case True
    then show ?thesis by (rule short)
  next
    case False
    then have long: "5 \<le> length (rbuf st)" by simp
    show ?thesis
    proof (cases "rbuf st ! 0 = MSG_TEXT")
      case False
      with long show ?thesis by (rule bad_type)
    next
      case ty: True
      from long obtain n where n: "struct_unpack_I (take 4 (drop 1 (rbuf st))) = Inr n"
        and n0: "0 \<le> n"
        using header_parsed [of "rbuf st"] by auto
      show ?thesis
      proof (cases "int MAX_BYTES < n")
        case True
        with long ty n show ?thesis by (rule bad_length)
      next
        case False
        then have small: "n \<le> int MAX_BYTES" by simp
        show ?thesis
        proof (cases "int (length (rbuf st)) < 5 + n")
          case True
          with long ty n n0 small show ?thesis by (rule incomplete)
        next
          case False
          then have full: "5 + n \<le> int (length (rbuf st))" by simp
          let ?st = "st\<lparr>rbuf := drop (5 + nat n) (rbuf st)\<rparr>"
          have shorter: "length (rbuf ?st) < length (rbuf st)" using long by simp
          show ?thesis
          proof (cases "utf8_decode (take (nat n) (drop 5 (rbuf st)))")
            case None
            from long ty n n0 small full None less [OF shorter] show ?thesis by (rule skip)
          next
            case (Some t)
            have "length (take (nat n) (drop 5 (rbuf st))) \<le> MAX_BYTES" using small n0 by simp
            from on_text_from_client_returns [OF Some this]
            obtain s1 where s1: "on_text_from_client net (sock st) t s = Returned s1" by blast
            from long ty n n0 small full Some s1 less [OF shorter] show ?thesis by (rule deliver)
          qed
        qed
      qed
    qed
  qed
qed

lemma process_frames_skip:
  "5 \<le> length (rbuf st) \<Longrightarrow> rbuf st ! 0 = MSG_TEXT \<Longrightarrow>
   struct_unpack_I (take 4 (drop 1 (rbuf st))) = Inr n \<Longrightarrow> 0 \<le> n \<Longrightarrow> n \<le> int MAX_BYTES \<Longrightarrow>
   5 + n \<le> int (length (rbuf st)) \<Longrightarrow>
   utf8_decode (take (nat n) (drop 5 (rbuf st))) = None \<Longrightarrow>
   process_frames net st s = process_frames net (st\<lparr>rbuf := drop (5 + nat n) (rbuf st)\<rparr>) s"
  by (simp add: process_frames_complete)

lemma process_frames_deliver:
  "5 \<le> length (rbuf st) \<Longrightarrow> rbuf st ! 0 = MSG_TEXT \<Longrightarrow>
   struct_unpack_I (take 4 (drop 1 (rbuf st))) = Inr n \<Longrightarrow> 0 \<le> n \<Longrightarrow> n \<le> int MAX_BYTES \<Longrightarrow>
   5 + n \<le> int (length (rbuf st)) \<Longrightarrow>
   utf8_decode (take (nat n) (drop 5 (rbuf st))) = Some t \<Longrightarrow>
   on_text_from_client net (sock st) t s = Returned s1 \<Longrightarrow>
   process_frames net st s = process_frames net (st\<lparr>rbuf := drop (5 + nat n) (rbuf st)\<rparr>) s1"
  by (simp add: process_frames_complete)

text \<open>What is left in the buffer is a suffix of what was there; the object is the same.\<close>

lemma process_frames_residue:
  "process_frames net st s = Stopped ex st' s' \<Longrightarrow>
   \<exists>k. st' = st\<lparr>rbuf := drop k (rbuf st)\<rparr>"
proof (induction st s rule: process_frames_induct [where net = net])
  case (short st s)
  then have "st' = st" by (simp add: process_frames_short)
  then show ?case by (intro exI [of _ 0]) simp
next
  case (bad_type st s)
  then have "st' = st" by (simp add: process_frames_bad_type)
  then show ?case by (intro exI [of _ 0]) simp
next
  case (bad_length st s n)
  then have "st' = st" by (simp add: process_frames_bad_length)
  then show ?case by (intro exI [of _ 0]) simp
next
  case (incomplete st s n)
  then have "st' = st" by (simp add: process_frames_incomplete)
  then show ?case by (intro exI [of _ 0]) simp
next
  case (skip st s n)
  from skip.prems have "process_frames net (st\<lparr>rbuf := drop (5 + nat n) (rbuf st)\<rparr>) s = Stopped ex st' s'"
    using process_frames_skip [OF skip.hyps(1-7)] by simp
  from skip.IH [OF this] obtain k where "st' = st\<lparr>rbuf := drop k (drop (5 + nat n) (rbuf st))\<rparr>"
    by auto
  then show ?case by (intro exI [of _ "k + (5 + nat n)"]) simp
next
  case (deliver st s n t s1)
  from deliver.prems have "process_frames net (st\<lparr>rbuf := drop (5 + nat n) (rbuf st)\<rparr>) s1 = Stopped ex st' s'"
    using process_frames_deliver [OF deliver.hyps(1-8)] by simp
  from deliver.IH [OF this] obtain k where "st' = st\<lparr>rbuf := drop k (drop (5 + nat n) (rbuf st))\<rparr>"
    by auto
  then show ?case by (intro exI [of _ "k + (5 + nat n)"]) simp
qed

subsection \<open>A complete frame at the front of the buffer\<close>

lemma process_frames_front:
  assumes hdr: "length hdr = 4" "struct_unpack_I hdr = Inr (int (length p))"
    and len: "length p \<le> MAX_BYTES"
    and buf: "rbuf st = [MSG_TEXT] @ hdr @ p @ rest"
  shows "process_frames net st s =
     (case utf8_decode p of
        None \<Rightarrow> process_frames net (st\<lparr>rbuf := rest\<rparr>) s
      | Some t \<Rightarrow>
          (case on_text_from_client net (sock st) t s of
             Raised e s' \<Rightarrow> Crashed e (st\<lparr>rbuf := rest\<rparr>) s'
           | Returned s' \<Rightarrow> process_frames net (st\<lparr>rbuf := rest\<rparr>) s'))"
proof -
  have 1: "5 \<le> length (rbuf st)" and 2: "rbuf st ! 0 = MSG_TEXT"
    and 3: "struct_unpack_I (take 4 (drop 1 (rbuf st))) = Inr (int (length p))"
    and 4: "int (length p) \<le> int MAX_BYTES"
    and 5: "5 + int (length p) \<le> int (length (rbuf st))"
    using hdr len by (simp_all add: buf)
  have p: "take (nat (int (length p))) (drop 5 (rbuf st)) = p"
    using hdr(1) by (simp add: buf)
  have "5 + nat (int (length p)) = length ([MSG_TEXT] @ hdr @ p)"
    using hdr(1) by simp
  moreover have "rbuf st = ([MSG_TEXT] @ hdr @ p) @ rest"
    by (simp add: buf)
  ultimately have r: "drop (5 + nat (int (length p))) (rbuf st) = rest"
    by (metis append_eq_conv_conj)
  have z: "0 \<le> int (length p)" by simp
  show ?thesis
    by (simp only: process_frames_complete [OF 1 2 3 z 4 5] p r)
qed

lemma process_frames_hi:
  "process_frames (\<lambda>c p. SendOk) \<lparr>sock = 1, label = [], rbuf = [1, 0, 0, 0, 2, 104, 105]\<rparr> init_server
     = Stopped Break \<lparr>sock = 1, label = [], rbuf = []\<rparr>
         (init_server\<lparr>last_sent_from_pc := Some [104, 105],
                       clipboard_writes := [([104, 105], Some [104, 105])]\<rparr>)"
  by (simp add: process_frames.simps init_server_def MSG_TEXT_def MAX_BYTES_def utf8_decode_def
      on_text_from_client_def frame_text_def utf8_encode_def encode_cp_def struct_pack_I_def
      write_clipboard_text_def broadcast_def)

subsection \<open>Bytes that arrive later do not change what was decoded\<close>

lemma drop_client_twice: "drop_client c (drop_client c s) = drop_client c s"
  by (simp add: drop_client_def AList.delete_idem)

lemma header_append:
  "5 \<le> length buf \<Longrightarrow> (buf @ ys) ! 0 = buf ! 0"
  "5 \<le> length buf \<Longrightarrow> take 4 (drop 1 (buf @ ys)) = take 4 (drop 1 buf)"
  by (auto simp: nth_append)

lemma payload_append:
  "5 + n \<le> length buf \<Longrightarrow> take n (drop 5 (buf @ ys)) = take n (drop 5 buf)"
  "5 + n \<le> length buf \<Longrightarrow> drop (5 + n) (buf @ ys) = drop (5 + n) buf @ ys"
  by simp_all

lemma process_frames_append:
  "process_frames net st s = Stopped ex st' s' \<Longrightarrow>
   process_frames net (st'\<lparr>rbuf := rbuf st' @ ys\<rparr>) s'
     = process_frames net (st\<lparr>rbuf := rbuf st @ ys\<rparr>) s"
proof (induction st s rule: process_frames_induct [where net = net])
  case (short st s)
  then show ?case by (simp add: process_frames_short)
next
  case (bad_type st s)
  let ?st = "st\<lparr>rbuf := rbuf st @ ys\<rparr>"
  from bad_type have r: "st' = st" "s' = drop_client (sock st) s"
    by (auto simp: process_frames_bad_type)
  have "5 \<le> length (rbuf ?st)" "rbuf ?st ! 0 \<noteq> MSG_TEXT"
    using bad_type.hyps by (simp_all add: header_append)
  then have "process_frames net ?st x = Stopped DropBadType ?st (drop_client (sock st) x)" for x
    using process_frames_bad_type [of ?st net x] by simp
  then show ?case by (simp add: r drop_client_twice)
next
  case (bad_length st s n)
  let ?st = "st\<lparr>rbuf := rbuf st @ ys\<rparr>"
  from bad_length have r: "st' = st" "s' = drop_client (sock st) s"
    by (auto simp: process_frames_bad_length)
  have "5 \<le> length (rbuf ?st)" "rbuf ?st ! 0 = MSG_TEXT"
    "struct_unpack_I (take 4 (drop 1 (rbuf ?st))) = Inr n"
    using bad_length.hyps by (simp_all add: header_append)
  then have "process_frames net ?st x = Stopped DropBadLength ?st (drop_client (sock st) x)" for x
    using process_frames_bad_length [of ?st n net x] bad_length.hyps(4) by simp
  then show ?case by (simp add: r drop_client_twice)
next
  case (incomplete st s n)
  then show ?case by (simp add: process_frames_incomplete)
next
  case (skip st s n)
  let ?st = "st\<lparr>rbuf := rbuf st @ ys\<rparr>"
  let ?k = "5 + nat n"
  have k: "5 + nat n \<le> length (rbuf st)" using skip.hyps(4,6) by linarith
  have pre: "5 \<le> length (rbuf ?st)" "rbuf ?st ! 0 = MSG_TEXT"
    "struct_unpack_I (take 4 (drop 1 (rbuf ?st))) = Inr n" "5 + n \<le> int (length (rbuf ?st))"
    "utf8_decode (take (nat n) (drop 5 (rbuf ?st))) = None"
    using skip.hyps k by (simp_all add: header_append payload_append)
  have cut: "?st\<lparr>rbuf := drop ?k (rbuf ?st)\<rparr>
              = (st\<lparr>rbuf := drop ?k (rbuf st)\<rparr>)\<lparr>rbuf := rbuf (st\<lparr>rbuf := drop ?k (rbuf st)\<rparr>) @ ys\<rparr>"
    using k by simp
  have "process_frames net (st\<lparr>rbuf := drop ?k (rbuf st)\<rparr>) s = Stopped ex st' s'"
    using skip.prems process_frames_skip [OF skip.hyps(1-7)] by simp
  from skip.IH [OF this] show ?case
    using process_frames_skip [OF pre(1-3) skip.hyps(4,5) pre(4,5), of net s]
    by (simp only: cut)
next
  case (deliver st s n t s1)
  let ?st = "st\<lparr>rbuf := rbuf st @ ys\<rparr>"
  let ?k = "5 + nat n"
  have k: "5 + nat n \<le> length (rbuf st)" using deliver.hyps(4,6) by linarith
  have pre: "5 \<le> length (rbuf ?st)" "rbuf ?st ! 0 = MSG_TEXT"
    "struct_unpack_I (take 4 (drop 1 (rbuf ?st))) = Inr n" "5 + n \<le> int (length (rbuf ?st))"
    "utf8_decode (take (nat n) (drop 5 (rbuf ?st))) = Some t"
    "on_text_from_client net (sock ?st) t s = Returned s1"
    using deliver.hyps k by (simp_all add: header_append payload_append)
  have cut: "?st\<lparr>rbuf := drop ?k (rbuf ?st)\<rparr>
              = (st\<lparr>rbuf := drop ?k (rbuf st)\<rparr>)\<lparr>rbuf := rbuf (st\<lparr>rbuf := drop ?k (rbuf st)\<rparr>) @ ys\<rparr>"
    using k by simp
  have "process_frames net (st\<lparr>rbuf := drop ?k (rbuf st)\<rparr>) s1 = Stopped ex st' s'"
    using deliver.prems process_frames_deliver [OF deliver.hyps(1-8)] by simp
  from deliver.IH [OF this] show ?case
    using process_frames_deliver [OF pre(1-3) deliver.hyps(4,5) pre(4-6)]
    by (simp only: cut)
qed

lemma process_frames_stops: "\<exists>ex st' s'. process_frames net st s = Stopped ex st' s'"
  using process_frames_never_crashes [of net st s]
  by (cases "process_frames net st s") auto

lemma feed_each_after_feed:
  "feed_each net bs (feed net pre st s) = feed net (pre @ bs) st s"
proof (induction bs arbitrary: pre)
  case Nil
  then show ?case by simp
next
  case (Cons b bs)
  obtain ex st' s' where r: "feed net pre st s = Stopped ex st' s'"
    using process_frames_stops [of net "st\<lparr>rbuf := rbuf st @ pre\<rparr>" s] by (auto simp: feed_def)
  have "feed net [b] st' s' = feed net (pre @ [b]) st s"
    using process_frames_append [of net "st\<lparr>rbuf := rbuf st @ pre\<rparr>" s ex st' s' "[b]"] r
    by (simp add: feed_def)
  then show ?case
    using Cons.IH [of "pre @ [b]"] by (simp add: r)
qed

section \<open>The claims\<close>

text \<open>
  C1. When the event loop handles a decoded frame with text \<open>x\<close>, the field
  \<^verbatim>\<open>_last_sent_from_pc\<close> is \<open>x\<close> at the moment \<^verbatim>\<open>write_clipboard_text\<close> is called
  (the call is logged with the value the field holds then) and still is \<open>x\<close> when the
  handler is left. Every watcher tick that reads \<open>x\<close> from the clipboard while the field
  is \<open>x\<close> returns, puts nothing on \<^verbatim>\<open>to_broadcast\<close> and leaves the field at \<open>x\<close>, so
  the next such tick finds the same. The tick is one step of the model: the claim fixes
  the value of the field for the whole tick.
\<close>

theorem peer_text_not_rebroadcast:
  "clipboard_writes (state_of (on_text_from_client net sender x s))
     = clipboard_writes s @ [(x, Some x)] \<and>
   last_sent_from_pc (state_of (on_text_from_client net sender x s)) = Some x \<and>
   to_broadcast (state_of (clipboard_watch_tick (True, Some x)
                   (state_of (on_text_from_client net sender x s)))) = to_broadcast s \<and>
   (\<forall>s'. last_sent_from_pc s' = Some x \<longrightarrow>
      (\<exists>s''. clipboard_watch_tick (True, Some x) s' = Returned s'' \<and>
             to_broadcast s'' = to_broadcast s' \<and>
             last_sent_from_pc s'' = Some x))"
proof -
  have tick: "\<exists>s''. clipboard_watch_tick (True, Some x) s' = Returned s'' \<and>
             to_broadcast s'' = to_broadcast s' \<and> last_sent_from_pc s'' = Some x"
    if "last_sent_from_pc s' = Some x" for s'
    using that by (simp add: watch_tick_suppressed)
  have "to_broadcast (state_of (clipboard_watch_tick (True, Some x)
                   (state_of (on_text_from_client net sender x s)))) = to_broadcast s"
    by (simp add: watch_tick_suppressed on_text_from_client_fields)
  with tick show ?thesis
    by (simp add: on_text_from_client_fields)
qed

theorem peer_text_not_rebroadcast_witness:
  "last_sent_from_pc (init_server\<lparr>last_sent_from_pc := Some [104, 105]\<rparr>) = Some [104, 105] \<and>
   clipboard_watch_tick (True, Some [104, 105]) (init_server\<lparr>last_sent_from_pc := Some [104, 105]\<rparr>)
     = Returned (init_server\<lparr>last_sent_from_pc := Some [104, 105], last_polled := Some [104, 105]\<rparr>) \<and>
   to_broadcast (state_of (clipboard_watch_tick (True, Some [104, 105])
      (init_server\<lparr>last_sent_from_pc := Some [104, 105]\<rparr>))) = []"
  using peer_text_not_rebroadcast [of "\<lambda>c p. SendOk" 1 "[104, 105]" init_server]
  by (simp add: clipboard_watch_tick_def init_server_def)

text \<open>
  C2, as the code has it. For a tick that reads the string \<open>t\<close>, with UTF-8 encoding
  \<open>data\<close>: a frame for \<open>t\<close> is put on \<^verbatim>\<open>to_broadcast\<close> exactly when \<open>t\<close> differs from
  \<^verbatim>\<open>_last_polled\<close> (or that is unset), differs from \<^verbatim>\<open>_last_sent_from_pc\<close>, is not
  empty, and \<open>data\<close> is at most \<^verbatim>\<open>MAX_BYTES\<close> long. The frame is \<^verbatim>\<open>frame_text(t)\<close>, it
  goes to the end of the queue, and \<^verbatim>\<open>_last_sent_from_pc\<close> and \<^verbatim>\<open>_last_polled\<close> are
  \<open>t\<close> afterwards. In every other case the queue is left as it is.
\<close>

theorem watch_tick_enqueues_iff:
  assumes "utf8_encode t = Inr data"
  shows
    "(if (last_polled s = None \<or> last_polled s \<noteq> Some t) \<and> last_sent_from_pc s \<noteq> Some t \<and>
         t \<noteq> [] \<and> length data \<le> MAX_BYTES
      then \<exists>f. frame_text t = Inr f \<and>
               clipboard_watch_tick (True, Some t) s =
                 Returned (s\<lparr>last_sent_from_pc := Some t,
                             to_broadcast := to_broadcast s @ [f],
                             last_polled := Some t\<rparr>)
      else to_broadcast (state_of (clipboard_watch_tick (True, Some t) s)) = to_broadcast s)"
proof (cases "length data \<le> MAX_BYTES")
  case True
  from frame_text_Inr [OF assms True] obtain f where f: "frame_text t = Inr f" by blast
  show ?thesis
    using True f by (auto simp: clipboard_watch_tick_def queue_from_pc_def Let_def)
next
  case False
  then have "frame_text t = Inl ValueError"
    using frame_text_raises [OF assms] by simp
  then show ?thesis
    using False by (auto simp: clipboard_watch_tick_def queue_from_pc_def Let_def)
qed

theorem watch_tick_enqueues_iff_witness:
  "utf8_encode [104, 105] = Inr [104, 105] \<and>
   clipboard_watch_tick (True, Some [104, 105]) init_server =
     Returned (init_server\<lparr>last_sent_from_pc := Some [104, 105],
                            to_broadcast := [[1, 0, 0, 0, 2, 104, 105]],
                            last_polled := Some [104, 105]\<rparr>)"
proof -
  have h: "utf8_encode [104, 105] = Inr [104, 105]"
    by (simp add: utf8_encode_def encode_cp_def)
  have f: "frame_text [104, 105] = Inr [1, 0, 0, 0, 2, 104, 105]"
    using frame_text_Inr [OF h] by (simp add: MAX_BYTES_def MSG_TEXT_def)
  show ?thesis
    using watch_tick_enqueues_iff [OF h, of init_server] h f
    by (simp add: init_server_def MAX_BYTES_def)
qed

text \<open>
  C2 as stated fails: a fresh server reads 1,048,577 letters \<open>a\<close>. The string differs
  from \<^verbatim>\<open>_last_polled\<close> (unset) and from \<^verbatim>\<open>_last_sent_from_pc\<close> and is not empty, yet
  no frame is put on the queue.
\<close>

theorem watch_tick_oversized_not_enqueued:
  "last_polled init_server = None \<and>
   last_sent_from_pc init_server \<noteq> Some (replicate 1048577 97) \<and>
   replicate 1048577 97 \<noteq> ([] :: str) \<and>
   to_broadcast (state_of (clipboard_watch_tick (True, Some (replicate 1048577 97)) init_server))
     = to_broadcast init_server"
  by (simp add: clipboard_watch_tick_def queue_from_pc_def frame_text_oversized init_server_def)

text \<open>
  C3. Let \<open>t\<close> have the UTF-8 encoding \<open>data\<close> of at most \<^verbatim>\<open>MAX_BYTES\<close> bytes. Then
  \<^verbatim>\<open>frame_text(t)\<close> returns a frame of 5 + |data| bytes, and \<^verbatim>\<open>_process_frames\<close> on a
  buffer that starts with this frame calls \<^verbatim>\<open>_on_text_from_client\<close> with exactly \<open>t\<close>
  (which writes \<open>t\<close> to the clipboard), cuts exactly the frame off the buffer and goes
  on with what follows it; on the frame alone it leaves the buffer empty. The empty
  string is covered too.
\<close>

theorem frame_roundtrip:
  assumes "utf8_encode t = Inr data" "length data \<le> MAX_BYTES"
  shows "\<exists>f s1. frame_text t = Inr f \<and> length f = 5 + length data \<and>
           on_text_from_client net (sock st) t s = Returned s1 \<and>
           clipboard_writes s1 = clipboard_writes s @ [(t, Some t)] \<and>
           process_frames net (st\<lparr>rbuf := f @ rest\<rparr>) s = process_frames net (st\<lparr>rbuf := rest\<rparr>) s1 \<and>
           process_frames net (st\<lparr>rbuf := f\<rparr>) s = Stopped Break (st\<lparr>rbuf := []\<rparr>) s1"
proof -
  define hdr :: bytes where "hdr = [of_nat (length data div 16777216), of_nat (length data div 65536),
                      of_nat (length data div 256), of_nat (length data)]"
  define f where "f = [MSG_TEXT] @ hdr @ data"
  have f: "frame_text t = Inr f"
    using frame_text_Inr [OF assms] by (simp add: f_def hdr_def)
  have "struct_pack_I (length data) = Inr hdr"
    using assms(2) by (simp add: struct_pack_I_def MAX_BYTES_def hdr_def)
  from struct_unpack_pack [OF this]
  have hdr: "length hdr = 4" "struct_unpack_I hdr = Inr (int (length data))" by simp_all
  have dec: "utf8_decode data = Some t" by (rule utf8_decode_encode [OF assms(1)])
  from on_text_from_client_returns [OF dec assms(2)]
  obtain s1 where s1: "on_text_from_client net (sock st) t s = Returned s1" by blast
  have w: "clipboard_writes s1 = clipboard_writes s @ [(t, Some t)]"
    using on_text_from_client_fields(2) [of net "sock st" t s] by (simp add: s1)
  have step: "process_frames net (st\<lparr>rbuf := f @ r\<rparr>) s = process_frames net (st\<lparr>rbuf := r\<rparr>) s1" for r
    using process_frames_front [OF hdr assms(2), of "st\<lparr>rbuf := f @ r\<rparr>" r net s]
    by (simp add: f_def dec s1)
  have "process_frames net (st\<lparr>rbuf := f\<rparr>) s = Stopped Break (st\<lparr>rbuf := []\<rparr>) s1"
    using step [of "[]"] by (simp add: process_frames_short)
  with f hdr(1) s1 w step [of rest] show ?thesis
    by (intro exI [of _ f] exI [of _ s1]) (simp add: f_def)
qed

theorem frame_roundtrip_witness:
  "utf8_encode [104, 105] = Inr [104, 105] \<and> length [104 :: byte, 105] \<le> MAX_BYTES \<and>
   frame_text [104, 105] = Inr [1, 0, 0, 0, 2, 104, 105] \<and>
   process_frames (\<lambda>c p. SendOk) ((ClientState 1 [])\<lparr>rbuf := [1, 0, 0, 0, 2, 104, 105]\<rparr>) init_server
     = Stopped Break ((ClientState 1 [])\<lparr>rbuf := []\<rparr>)
         (init_server\<lparr>last_sent_from_pc := Some [104, 105],
                       clipboard_writes := [([104, 105], Some [104, 105])]\<rparr>)"
proof -
  have h: "utf8_encode [104, 105] = Inr [104, 105]"
    by (simp add: utf8_encode_def encode_cp_def)
  have l: "length [104 :: byte, 105] \<le> MAX_BYTES" by (simp add: MAX_BYTES_def)
  have f: "frame_text [104, 105] = Inr [1, 0, 0, 0, 2, 104, 105]"
    using frame_text_Inr [OF h l] by (simp add: MSG_TEXT_def)
  have o: "on_text_from_client (\<lambda>c p. SendOk) 1 [104, 105] init_server =
      Returned (init_server\<lparr>last_sent_from_pc := Some [104, 105],
                       clipboard_writes := [([104, 105], Some [104, 105])]\<rparr>)"
    by (simp add: on_text_from_client_def f write_clipboard_text_def broadcast_def init_server_def)
  show ?thesis
    using frame_roundtrip [OF h l, of "\<lambda>c p. SendOk" "ClientState 1 []" init_server "[]"] h l f o
    by (auto simp: ClientState_def)
qed

text \<open>
  C4. A connection starts with an empty buffer. Appending a byte sequence one byte at a
  time, with \<^verbatim>\<open>_process_frames\<close> run after each byte, ends in the same result as
  appending the whole sequence and running \<^verbatim>\<open>_process_frames\<close> once: the same way out
  of the loop (no complete frame left, bad type, or bad length), the same bytes left in
  the buffer, and the same server, hence the same texts handed to the handler in the
  same order (they are the clipboard calls) and the same payloads sent. Neither run
  raises. Every byte is appended and the loop is run on the grown buffer, also after a
  bad frame has been found.
\<close>

theorem bytewise_equals_batch:
  "feed_each net bs (Stopped Break (ClientState c l) s) = feed net bs (ClientState c l) s \<and>
   (\<exists>ex st' s'. feed net bs (ClientState c l) s = Stopped ex st' s')"
proof -
  have "feed net [] (ClientState c l) s = Stopped Break (ClientState c l) s"
    by (simp add: feed_def ClientState_def process_frames_short)
  then have "feed_each net bs (Stopped Break (ClientState c l) s) = feed net bs (ClientState c l) s"
    using feed_each_after_feed [of net bs "[]" "ClientState c l" s] by simp
  moreover have "\<exists>ex st' s'. feed net bs (ClientState c l) s = Stopped ex st' s'"
    unfolding feed_def by (rule process_frames_stops)
  ultimately show ?thesis by simp
qed

theorem bytewise_equals_batch_witness:
  "feed_each (\<lambda>c p. SendOk) [1, 0, 0, 0, 2, 104, 105] (Stopped Break (ClientState 1 []) init_server)
     = Stopped Break \<lparr>sock = 1, label = [], rbuf = []\<rparr>
         (init_server\<lparr>last_sent_from_pc := Some [104, 105],
                       clipboard_writes := [([104, 105], Some [104, 105])]\<rparr>)"
  using bytewise_equals_batch [of "\<lambda>c p. SendOk" "[1, 0, 0, 0, 2, 104, 105]" 1 "[]" init_server]
    process_frames_hi
  by (simp add: feed_def ClientState_def del: feed_each.simps)

text \<open>
  C5. For every string \<open>t\<close>, \<^verbatim>\<open>frame_text(t)\<close> raises
  \<^verbatim>\<open>ValueError("payload too large")\<close> exactly when \<open>t\<close> has a UTF-8 encoding and that
  encoding is longer than \<^verbatim>\<open>MAX_BYTES\<close> = 1,048,576 bytes. When the encoding \<open>data\<close>
  is not longer, the result is the type byte 0x01, then four header bytes, then \<open>data\<close>;
  the header is the length of \<open>data\<close>, most significant byte first, and reads back as
  that length. (A Python string with a lone surrogate has no UTF-8 encoding:
  \<^verbatim>\<open>str.encode\<close> raises \<^verbatim>\<open>UnicodeEncodeError\<close> for it before any length is looked at.)
\<close>

theorem frame_text_too_large_iff:
  "(frame_text t = Inl ValueError) = (\<exists>data. utf8_encode t = Inr data \<and> MAX_BYTES < length data) \<and>
   (\<forall>data. utf8_encode t = Inr data \<and> length data \<le> MAX_BYTES \<longrightarrow>
      frame_text t =
        Inr ([0x01,
              of_nat (length data div 16777216), of_nat (length data div 65536),
              of_nat (length data div 256), of_nat (length data)] @ data) \<and>
      struct_unpack_I
        [of_nat (length data div 16777216), of_nat (length data div 65536),
         of_nat (length data div 256), of_nat (length data)] = Inr (int (length data)))"
proof -
  have raises: "(frame_text t = Inl ValueError) = (\<exists>data. utf8_encode t = Inr data \<and> MAX_BYTES < length data)"
  proof (cases "utf8_encode t")
    case (Inl e)
    then have "e = UnicodeEncodeError"
      by (auto simp: utf8_encode_def split: option.splits)
    with Inl show ?thesis by (simp add: frame_text_def)
  next
    case (Inr data)
    show ?thesis
    proof (cases "MAX_BYTES < length data")
      case True
      then show ?thesis using frame_text_raises [OF Inr] Inr by simp
    next
      case False
      then show ?thesis using frame_text_Inr [OF Inr] Inr by simp
    qed
  qed
  have returns: "frame_text t =
        Inr ([0x01,
              of_nat (length data div 16777216), of_nat (length data div 65536),
              of_nat (length data div 256), of_nat (length data)] @ data) \<and>
      struct_unpack_I
        [of_nat (length data div 16777216), of_nat (length data div 65536),
         of_nat (length data div 256), of_nat (length data)] = Inr (int (length data))"
    if enc: "utf8_encode t = Inr data" and le: "length data \<le> MAX_BYTES" for data
  proof -
    have "struct_pack_I (length data) =
       Inr [of_nat (length data div 16777216), of_nat (length data div 65536),
            of_nat (length data div 256), of_nat (length data)]"
      using le by (simp add: struct_pack_I_def MAX_BYTES_def)
    from struct_unpack_pack [OF this] show ?thesis
      using frame_text_Inr [OF enc le] by (simp add: MSG_TEXT_def)
  qed
  from raises returns show ?thesis by blast
qed

theorem frame_text_too_large_iff_witness:
  "utf8_encode [104, 105] = Inr [104, 105] \<and>
   length [104 :: byte, 105] \<le> MAX_BYTES \<and>
   frame_text [104, 105] = Inr [1, 0, 0, 0, 2, 104, 105] \<and>
   utf8_encode (replicate 1048577 97) = Inr (replicate 1048577 97) \<and>
   MAX_BYTES < length (replicate 1048577 (97 :: byte)) \<and>
   frame_text (replicate 1048577 97) = Inl ValueError"
proof -
  have h: "utf8_encode [104, 105] = Inr [104, 105]"
    by (simp add: utf8_encode_def encode_cp_def)
  have l: "length [104 :: byte, 105] \<le> MAX_BYTES" by (simp add: MAX_BYTES_def)
  have a: "frame_text [104, 105] = Inr [1, 0, 0, 0, 2, 104, 105]"
    using frame_text_too_large_iff [of "[104, 105]"] h l by simp
  have g: "utf8_encode (replicate 1048577 97) = Inr (replicate 1048577 97)"
    by (simp add: utf8_encode_replicate)
  have m: "MAX_BYTES < length (replicate 1048577 (97 :: byte))" by (simp add: MAX_BYTES_def)
  have b: "frame_text (replicate 1048577 97) = Inl ValueError"
    using frame_text_too_large_iff [of "replicate 1048577 97"] g m by blast
  from h l a g m b show ?thesis by simp
qed

text \<open>
  C6. \<^verbatim>\<open>_broadcast\<close> works on the keys the registry holds when it is called. What it
  adds to the delivered payloads is the payload once for each of these connections that
  is not the excluded one and whose \<^verbatim>\<open>sendall\<close> returns, in the registry's order, and
  nothing else; no connection gets it twice. The registry keeps exactly the entries of
  the excluded connection and of the connections whose send returned; the connections
  whose send would block or failed, and no others, are removed from the registry,
  unregistered from the selector and closed.
\<close>

theorem broadcast_fault_isolation:
  assumes "distinct (map fst (clients s))"
  shows
    "sent (broadcast net payload exclude s) =
       sent s @ map (\<lambda>c. (c, payload))
                  (filter (\<lambda>c. Some c \<noteq> exclude \<and> net c payload = SendOk) (map fst (clients s))) \<and>
     (\<forall>c. count_list (drop (length (sent s)) (sent (broadcast net payload exclude s))) (c, payload) =
          (if c \<in> fst ` set (clients s) \<and> Some c \<noteq> exclude \<and> net c payload = SendOk
           then 1 else 0)) \<and>
     clients (broadcast net payload exclude s) =
       filter (\<lambda>kv. Some (fst kv) = exclude \<or> net (fst kv) payload = SendOk) (clients s) \<and>
     closed (broadcast net payload exclude s) =
       closed s \<union> {c \<in> fst ` set (clients s). Some c \<noteq> exclude \<and> net c payload \<noteq> SendOk} \<and>
     registered (broadcast net payload exclude s) =
       registered s - {c \<in> fst ` set (clients s). Some c \<noteq> exclude \<and> net c payload \<noteq> SendOk}"
proof -
  let ?ok = "\<lambda>c. Some c \<noteq> exclude \<and> net c payload = SendOk"
  have sent: "sent (broadcast net payload exclude s) =
       sent s @ map (\<lambda>c. (c, payload)) (filter ?ok (map fst (clients s)))"
    by (simp add: broadcast_def broadcast_loop_sent)
  have once: "count_list (drop (length (sent s)) (sent (broadcast net payload exclude s))) (c, payload) =
          (if c \<in> fst ` set (clients s) \<and> ?ok c then 1 else 0)" for c
    using count_list_delivered [OF assms, of payload ?ok c] by (simp add: sent)
  have cl: "clients (broadcast net payload exclude s) =
       filter (\<lambda>kv. Some (fst kv) = exclude \<or> net (fst kv) payload = SendOk) (clients s)"
    unfolding broadcast_def broadcast_loop_clients by (rule filter_cong) auto
  have "closed (broadcast net payload exclude s) =
       closed s \<union> {c \<in> fst ` set (clients s). Some c \<noteq> exclude \<and> net c payload \<noteq> SendOk}"
    and "registered (broadcast net payload exclude s) =
       registered s - {c \<in> fst ` set (clients s). Some c \<noteq> exclude \<and> net c payload \<noteq> SendOk}"
    by (auto simp: broadcast_def broadcast_loop_closed broadcast_loop_registered)
  with sent once cl show ?thesis by (intro conjI allI)
qed

theorem broadcast_fault_isolation_witness:
  "distinct (map fst [(1 :: sock, ClientState 1 ''a''), (2, ClientState 2 ''b''), (3, ClientState 3 ''c'')]) \<and>
   sent (broadcast (\<lambda>c p. if c = 2 then WouldBlock else SendOk) [1, 0, 0, 0, 0] (Some 1)
      (init_server\<lparr>clients := [(1, ClientState 1 ''a''), (2, ClientState 2 ''b''),
                                 (3, ClientState 3 ''c'')],
                     registered := {1, 2, 3}\<rparr>)) = [(3, [1, 0, 0, 0, 0])] \<and>
   clients (broadcast (\<lambda>c p. if c = 2 then WouldBlock else SendOk) [1, 0, 0, 0, 0] (Some 1)
      (init_server\<lparr>clients := [(1, ClientState 1 ''a''), (2, ClientState 2 ''b''),
                                 (3, ClientState 3 ''c'')],
                     registered := {1, 2, 3}\<rparr>))
     = [(1, ClientState 1 ''a''), (3, ClientState 3 ''c'')] \<and>
   closed (broadcast (\<lambda>c p. if c = 2 then WouldBlock else SendOk) [1, 0, 0, 0, 0] (Some 1)
      (init_server\<lparr>clients := [(1, ClientState 1 ''a''), (2, ClientState 2 ''b''),
                                 (3, ClientState 3 ''c'')],
                     registered := {1, 2, 3}\<rparr>)) = {2}"
proof -
  let ?s = "init_server\<lparr>clients := [(1, ClientState 1 ''a''), (2, ClientState 2 ''b''),
                                 (3, ClientState 3 ''c'')],
                     registered := {1, 2, 3}\<rparr>"
  let ?net = "\<lambda>(c :: sock) (p :: bytes). if c = 2 then WouldBlock else SendOk"
  have d: "distinct (map fst (clients ?s))" by simp
  note th = broadcast_fault_isolation [OF d, of ?net "[1, 0, 0, 0, 0]" "Some 1"]
  have a: "sent (broadcast ?net [1, 0, 0, 0, 0] (Some 1) ?s) = [(3, [1, 0, 0, 0, 0])]"
    using th [THEN conjunct1] by (simp add: init_server_def)
  have b: "clients (broadcast ?net [1, 0, 0, 0, 0] (Some 1) ?s)
     = [(1, ClientState 1 ''a''), (3, ClientState 3 ''c'')]"
    using th [THEN conjunct2, THEN conjunct2, THEN conjunct1] by simp
  have c: "closed (broadcast ?net [1, 0, 0, 0, 0] (Some 1) ?s) = {2}"
    using th [THEN conjunct2, THEN conjunct2, THEN conjunct2, THEN conjunct1]
    by (auto simp: init_server_def)
  from a b c show ?thesis by simp
qed

text \<open>
  C7. A complete frame with the right type byte and a length of at most \<^verbatim>\<open>MAX_BYTES\<close>
  whose payload is not valid UTF-8 is cut off the front of the buffer and nothing else
  happens: the handler is not called, the server is as before (so the connection is in
  the registry as before), and the loop goes on with the bytes that follow the frame.
\<close>

theorem invalid_utf8_is_skipped:
  assumes "length hdr = 4" "struct_unpack_I hdr = Inr (int (length p))"
    "length p \<le> MAX_BYTES" "utf8_decode p = None"
  shows "process_frames net (st\<lparr>rbuf := [MSG_TEXT] @ hdr @ p @ rest\<rparr>) s
         = process_frames net (st\<lparr>rbuf := rest\<rparr>) s"
  using process_frames_front [OF assms(1-3), of "st\<lparr>rbuf := [MSG_TEXT] @ hdr @ p @ rest\<rparr>" rest net s]
  by (simp add: assms(4))

theorem invalid_utf8_is_skipped_witness:
  "length [0 :: byte, 0, 0, 1] = 4 \<and>
   struct_unpack_I [0, 0, 0, 1] = Inr (int (length [255 :: byte])) \<and>
   length [255 :: byte] \<le> MAX_BYTES \<and>
   utf8_decode [255] = None \<and>
   process_frames (\<lambda>c p. SendOk)
       \<lparr>sock = 1, label = [], rbuf = [1, 0, 0, 0, 1, 255, 1, 0, 0, 0, 2, 104, 105]\<rparr> init_server
     = Stopped Break \<lparr>sock = 1, label = [], rbuf = []\<rparr>
         (init_server\<lparr>last_sent_from_pc := Some [104, 105],
                       clipboard_writes := [([104, 105], Some [104, 105])]\<rparr>)"
proof -
  have 1: "length [0 :: byte, 0, 0, 1] = 4" by simp
  have 2: "struct_unpack_I [0, 0, 0, 1] = Inr (int (length [255 :: byte]))" by simp
  have 3: "length [255 :: byte] \<le> MAX_BYTES" by (simp add: MAX_BYTES_def)
  have 4: "utf8_decode [255] = None" by (simp add: utf8_decode_def)
  show ?thesis
    using invalid_utf8_is_skipped [OF 1 2 3 4, where net = "\<lambda>c p. SendOk"
        and st = "\<lparr>sock = 1, label = [], rbuf = []\<rparr>" and rest = "[1, 0, 0, 0, 2, 104, 105]"
        and s = init_server]
      1 2 3 4 process_frames_hi
    by (simp add: MSG_TEXT_def)
qed

text \<open>
  C8, where the code departs from it. A fresh server reads 1,048,577 letters \<open>a\<close>:
  \<^verbatim>\<open>queue_from_pc\<close> has set \<^verbatim>\<open>_last_sent_from_pc\<close> when \<^verbatim>\<open>frame_text\<close> raises, the
  exception leaves the loop of the watcher, and \<^verbatim>\<open>_last_polled\<close> is still unset.
\<close>

theorem watch_tick_oversized_raises:
  "clipboard_watch_tick (True, Some (replicate 1048577 97)) init_server =
     Raised ValueError (init_server\<lparr>last_sent_from_pc := Some (replicate 1048577 97)\<rparr>) \<and>
   last_polled (state_of (clipboard_watch_tick (True, Some (replicate 1048577 97)) init_server))
     = None"
  by (simp add: clipboard_watch_tick_def queue_from_pc_def frame_text_oversized init_server_def)

text \<open>
  C9. The four header bytes always parse to a number that is at least 0, so the test
  \<^verbatim>\<open>length < 0 or length > MAX_BYTES\<close> holds exactly when the parsed length exceeds
  \<^verbatim>\<open>MAX_BYTES\<close>: with at least five bytes in the buffer and the right type byte, the
  loop drops the connection on the length test, leaving the buffer as it is, exactly
  when the parsed length is greater than 1,048,576.
\<close>

theorem negative_length_unreachable:
  assumes "5 \<le> length (rbuf st)" "rbuf st ! 0 = MSG_TEXT"
  shows "\<exists>n. struct_unpack_I (take 4 (drop 1 (rbuf st))) = Inr n \<and> 0 \<le> n \<and>
             (n < 0 \<or> int MAX_BYTES < n) = (int MAX_BYTES < n) \<and>
             (process_frames net st s = Stopped DropBadLength st (drop_client (sock st) s))
               = (int MAX_BYTES < n)"
proof -
  from assms(1) obtain n where n: "struct_unpack_I (take 4 (drop 1 (rbuf st))) = Inr n"
    and n0: "0 \<le> n"
    using header_parsed [of "rbuf st"] by auto
  have "(process_frames net st s = Stopped DropBadLength st (drop_client (sock st) s))
          = (int MAX_BYTES < n)"
  proof (cases "int MAX_BYTES < n")
    case True
    then show ?thesis using process_frames_bad_length [OF assms n] by simp
  next
    case False
    then have small: "n \<le> int MAX_BYTES" by simp
    have "process_frames net st s \<noteq> Stopped DropBadLength st (drop_client (sock st) s)"
    proof (cases "int (length (rbuf st)) < 5 + n")
      case True
      then show ?thesis using process_frames_incomplete [OF assms n n0 small] by simp
    next
      case False
      then have full: "5 + n \<le> int (length (rbuf st))" by simp
      let ?st = "st\<lparr>rbuf := drop (5 + nat n) (rbuf st)\<rparr>"
      have shorter: "length (rbuf ?st) < length (rbuf st)" using assms(1) by simp
      show ?thesis
      proof
        assume stop: "process_frames net st s = Stopped DropBadLength st (drop_client (sock st) s)"
        have "\<exists>s1. process_frames net st s = process_frames net ?st s1"
        proof (cases "utf8_decode (take (nat n) (drop 5 (rbuf st)))")
          case None
          then show ?thesis using process_frames_skip [OF assms n n0 small full] by blast
        next
          case (Some t)
          have "length (take (nat n) (drop 5 (rbuf st))) \<le> MAX_BYTES" using small n0 by simp
          from on_text_from_client_returns [OF Some this]
          obtain s1 where "on_text_from_client net (sock st) t s = Returned s1" by blast
          then show ?thesis using process_frames_deliver [OF assms n n0 small full Some] by blast
        qed
        then obtain s1 where "process_frames net ?st s1 = Stopped DropBadLength st (drop_client (sock st) s)"
          using stop by auto
        from process_frames_residue [OF this] obtain k where "st = ?st\<lparr>rbuf := drop k (rbuf ?st)\<rparr>"
          by blast
        then have "rbuf st = drop k (rbuf ?st)" by (metis client_state.select_convs(3) client_state.surjective client_state.update_convs(3))
        then have "length (rbuf st) \<le> length (rbuf ?st)" by (metis diff_le_self length_drop)
        with shorter show False by simp
      qed
    qed
    with False show ?thesis by simp
  qed
  with n n0 show ?thesis by auto
qed

theorem negative_length_unreachable_witness:
  "5 \<le> length (rbuf \<lparr>sock = 7, label = [], rbuf = [1, 0, 32, 0, 0]\<rparr>) \<and>
   rbuf \<lparr>sock = 7, label = [], rbuf = [1, 0, 32, 0, 0]\<rparr> ! 0 = MSG_TEXT \<and>
   struct_unpack_I (take 4 (drop 1 [1, 0, 32, 0, 0])) = Inr 2097152 \<and>
   process_frames (\<lambda>c p. SendOk) \<lparr>sock = 7, label = [], rbuf = [1, 0, 32, 0, 0]\<rparr> init_server
     = Stopped DropBadLength \<lparr>sock = 7, label = [], rbuf = [1, 0, 32, 0, 0]\<rparr>
         (drop_client 7 init_server)"
  using negative_length_unreachable
    [of "\<lparr>sock = 7, label = [], rbuf = [1, 0, 32, 0, 0]\<rparr>" "\<lambda>c p. SendOk" init_server]
  by (simp add: MSG_TEXT_def MAX_BYTES_def)

text \<open>
  C10. A frame with an empty payload (the five bytes 01 00 00 00 00) from a peer is
  processed in full: \<^verbatim>\<open>_last_sent_from_pc\<close> becomes the empty string,
  \<^verbatim>\<open>write_clipboard_text\<close> is called with the empty string, and the five bytes are
  broadcast with the sender excluded, so that every other connection of the registry
  whose send returns gets them. The watcher and \<^verbatim>\<open>_accept\<close> do not pass the empty
  string on: a tick that reads it puts nothing on the queue, and accepting a connection
  while the clipboard is empty sends nothing.
\<close>

theorem empty_text_asymmetry:
  "process_frames net (st\<lparr>rbuf := [0x01, 0, 0, 0, 0]\<rparr>) s =
     Stopped Break (st\<lparr>rbuf := []\<rparr>)
       (broadcast net [0x01, 0, 0, 0, 0] (Some (sock st))
          (s\<lparr>last_sent_from_pc := Some [],
             clipboard_writes := clipboard_writes s @ [([], Some [])]\<rparr>)) \<and>
   sent (broadcast net [0x01, 0, 0, 0, 0] (Some (sock st))
          (s\<lparr>last_sent_from_pc := Some [],
             clipboard_writes := clipboard_writes s @ [([], Some [])]\<rparr>)) =
     sent s @ map (\<lambda>c. (c, [0x01, 0, 0, 0, 0]))
                (filter (\<lambda>c. c \<noteq> sock st \<and> net c [0x01, 0, 0, 0, 0] = SendOk) (map fst (clients s))) \<and>
   clipboard_watch_tick (True, Some []) s =
     Returned (if last_polled s = Some [] then s else s\<lparr>last_polled := Some []\<rparr>) \<and>
   to_broadcast (state_of (clipboard_watch_tick (True, Some []) s)) = to_broadcast s \<and>
   accept net conn lbl (True, Some []) s =
     s\<lparr>registered := insert conn (registered s),
       clients := AList.update conn (ClientState conn lbl) (clients s)\<rparr> \<and>
   sent (accept net conn lbl (True, Some []) s) = sent s"
proof -
  let ?s1 = "s\<lparr>last_sent_from_pc := Some [],
             clipboard_writes := clipboard_writes s @ [([], Some [])]\<rparr>"
  have f: "frame_text [] = Inr [0x01, 0, 0, 0, 0]"
    by (simp add: frame_text_def utf8_encode_def struct_pack_I_def MAX_BYTES_def MSG_TEXT_def)
  have h: "on_text_from_client net (sock st) [] s =
      Returned (broadcast net [0x01, 0, 0, 0, 0] (Some (sock st)) ?s1)"
    by (simp add: on_text_from_client_def f write_clipboard_text_def)
  have "process_frames net (st\<lparr>rbuf := [MSG_TEXT] @ [0, 0, 0, 0] @ [] @ []\<rparr>) s =
      process_frames net (st\<lparr>rbuf := []\<rparr>) (broadcast net [0x01, 0, 0, 0, 0] (Some (sock st)) ?s1)"
    using process_frames_front [where hdr = "[0, 0, 0, 0]" and p = "[]" and rest = "[]"
        and st = "st\<lparr>rbuf := [MSG_TEXT] @ [0, 0, 0, 0] @ [] @ []\<rparr>" and net = net and s = s]
    by (simp add: utf8_decode_def h)
  then have a: "process_frames net (st\<lparr>rbuf := [0x01, 0, 0, 0, 0]\<rparr>) s =
      Stopped Break (st\<lparr>rbuf := []\<rparr>) (broadcast net [0x01, 0, 0, 0, 0] (Some (sock st)) ?s1)"
    by (simp add: process_frames_short MSG_TEXT_def)
  have b: "sent (broadcast net [0x01, 0, 0, 0, 0] (Some (sock st)) ?s1) =
     sent s @ map (\<lambda>c. (c, [0x01, 0, 0, 0, 0]))
                (filter (\<lambda>c. c \<noteq> sock st \<and> net c [0x01, 0, 0, 0, 0] = SendOk) (map fst (clients s)))"
    by (simp add: broadcast_def broadcast_loop_sent)
  have c: "clipboard_watch_tick (True, Some []) s =
     Returned (if last_polled s = Some [] then s else s\<lparr>last_polled := Some []\<rparr>)"
    by (auto simp: clipboard_watch_tick_def)
  have d: "accept net conn lbl (True, Some []) s =
     s\<lparr>registered := insert conn (registered s),
       clients := AList.update conn (ClientState conn lbl) (clients s)\<rparr>"
    by (simp add: accept_def)
  show ?thesis
    unfolding a b c d by simp
qed

theorem empty_text_asymmetry_witness:
  "sent (broadcast (\<lambda>c p. SendOk) [0x01, 0, 0, 0, 0] (Some 1)
      (init_server\<lparr>clients := [(1, ClientState 1 ''a''), (2, ClientState 2 ''b'')],
                     last_sent_from_pc := Some [],
                     clipboard_writes := [([], Some [])]\<rparr>)) = [(2, [0x01, 0, 0, 0, 0])] \<and>
   clipboard_watch_tick (True, Some [])
      (init_server\<lparr>clients := [(1, ClientState 1 ''a''), (2, ClientState 2 ''b'')]\<rparr>)
     = Returned (init_server\<lparr>clients := [(1, ClientState 1 ''a''), (2, ClientState 2 ''b'')],
                              last_polled := Some []\<rparr>) \<and>
   sent (accept (\<lambda>c p. SendOk) 3 ''c'' (True, Some [])
      (init_server\<lparr>clients := [(1, ClientState 1 ''a''), (2, ClientState 2 ''b'')]\<rparr>)) = []"
  using empty_text_asymmetry [where net = "\<lambda>c p. SendOk" and st = "ClientState 1 ''a''"
      and s = "init_server\<lparr>clients := [(1, ClientState 1 ''a''), (2, ClientState 2 ''b'')]\<rparr>"
      and conn = 3 and lbl = "''c''"]
  by (simp add: init_server_def ClientState_def)

end
